theory Spec2Isabelle
  imports Complex_Main "HOL-Library.AList" "HOL-Library.Word"
begin

section \<open>IEC 60870-5-104 APCI connection endpoint\<close>

text \<open>
  A shallow embedding of \<^verbatim>\<open>hat/drivers/iec60870/apci/connection.py\<close>.  The
  coroutines of a connection run on one cooperative event loop, so every stretch of code
  between two suspension points is one atomic function on the connection state.  A raised
  exception is the left summand of the result and carries the state reached when it was
  raised, because the handlers mutate the connection before they raise.
\<close>

subsection \<open>Frames, errors, queues and timers\<close>

type_synonym bytes = "8 word list"

datatype ApduFunction =
  STARTDT_ACT | STARTDT_CON | STOPDT_ACT | STOPDT_CON | TESTFR_ACT | TESTFR_CON

text \<open>
  Modelled from the spec: the module \<^verbatim>\<open>common\<close> with the three APDU classes is not
  among the sources.  \<open>APDUI ssn rsn data\<close> is the numbered frame, \<open>APDUS rsn\<close> the
  supervisory frame and \<open>APDUU function\<close> the unnumbered control frame.
\<close>

datatype APDU = APDUI int int bytes | APDUS int | APDUU ApduFunction

text \<open>The generic \<^verbatim>\<open>Exception(msg)\<close> of the source keeps its message.\<close>

datatype error = ConnectionError | QueueClosedError | TimeoutError | Exception string

text \<open>
  Modelled from the spec: \<^verbatim>\<open>aio.Queue\<close> is not among the sources.  A queue is its
  items in arrival order and a closed flag; putting into a closed queue fails, getting
  from a closed queue fails once the queue is empty.
\<close>

record 'a queue =
  queue_items :: "'a list"
  queue_closed :: bool

definition put_nowait :: "'a queue \<Rightarrow> 'a \<Rightarrow> error + 'a queue" where
  "put_nowait q x =
     (if queue_closed q then Inl QueueClosedError
      else Inr (q\<lparr>queue_items := queue_items q @ [x]\<rparr>))"

datatype 'a got = Got 'a "'a queue" | Blocked | Closed

definition queue_get :: "'a queue \<Rightarrow> 'a got" where
  "queue_get q =
     (case queue_items q of
        x # xs \<Rightarrow> Got x (q\<lparr>queue_items := xs\<rparr>)
      | [] \<Rightarrow> (if queue_closed q then Closed else Blocked))"

definition queue_close :: "'a queue \<Rightarrow> 'a queue" where
  "queue_close q = q\<lparr>queue_closed := True\<rparr>"

text \<open>
  A timer of the event loop: the handle returned by \<^verbatim>\<open>call_later\<close>, the delay in
  seconds and the callback.  A cancelled or fired timer leaves the list of armed timers.
\<close>

datatype callback = on_response_timeout_cb | on_supervisory_timeout_cb

record timer =
  timer_handle :: nat
  timer_delay :: real
  timer_callback :: callback

datatype send_item = Data bytes | Future nat

datatype future_state = Pending | Result | Failed error | Cancelled

datatype writer_at = AwaitItem | AwaitWindow bytes | WriterDone

subsection \<open>Connection state\<close>

text \<open>
  The attributes of \<^verbatim>\<open>Connection\<close> without the leading underscore, followed by the
  part of the environment the connection acts on: the frames handed to TCP in order
  (\<open>wire\<close>), the armed timers of the event loop, the state of the drain futures, the number
  of \<^verbatim>\<open>notify_all\<close> calls on the condition variable, whether \<^verbatim>\<open>close()\<close> was called,
  and where the write loop is suspended.
\<close>

record Connection =
  wire :: "APDU list"
  always_enabled :: bool
  is_enabled :: bool
  response_timeout :: real
  supervisory_timeout :: real
  test_timeout :: real
  send_window_size :: int
  receive_window_size :: int
  receive_queue :: "bytes queue"
  send_queue :: "send_item queue"
  test_event :: bool
  ssn :: int
  rsn :: int
  ack :: int
  w :: int
  supervisory_handle :: "nat option"
  waiting_ack_handles :: "(int \<times> nat) list"
  waiting_ack_cv :: nat
  timers :: "timer list"
  next_handle :: nat
  futures :: "nat \<Rightarrow> future_state"
  closing :: bool
  writer :: writer_at
  reader_done :: bool

type_synonym 'a raising = "(error \<times> Connection) + 'a"

text \<open>
  Modelled from the spec: \<^verbatim>\<open>encoder\<close> and \<^verbatim>\<open>tcp\<close> are not among the sources; a
  written frame is appended to the frames handed to the reliable, ordered TCP stream.
\<close>

definition write_apdu :: "APDU \<Rightarrow> Connection \<Rightarrow> Connection" where
  "write_apdu apdu s = s\<lparr>wire := wire s @ [apdu]\<rparr>"

text \<open>
  Modelled from the spec: \<^verbatim>\<open>aio.Resource.close\<close> is not among the sources; closing is
  irreversible and only requests the end of the three loops.
\<close>

definition close :: "Connection \<Rightarrow> Connection" where
  "close s = s\<lparr>closing := True\<rparr>"

definition call_later :: "real \<Rightarrow> callback \<Rightarrow> Connection \<Rightarrow> nat \<times> Connection" where
  "call_later d cb s =
     (next_handle s,
      s\<lparr>timers := timers s @ [\<lparr>timer_handle = next_handle s, timer_delay = d, timer_callback = cb\<rparr>],
        next_handle := Suc (next_handle s)\<rparr>)"

definition cancel :: "nat \<Rightarrow> Connection \<Rightarrow> Connection" where
  "cancel h s = s\<lparr>timers := filter (\<lambda>t. timer_handle t \<noteq> h) (timers s)\<rparr>"

definition start_supervisory_timeout :: "Connection \<Rightarrow> Connection" where
  "start_supervisory_timeout s =
     (case supervisory_handle s of
        Some h \<Rightarrow> s
      | None \<Rightarrow>
          (let (h, s') = call_later (supervisory_timeout s) on_supervisory_timeout_cb s
           in s'\<lparr>supervisory_handle := Some h\<rparr>))"

definition stop_supervisory_timeout :: "Connection \<Rightarrow> Connection" where
  "stop_supervisory_timeout s =
     (case supervisory_handle s of
        None \<Rightarrow> s
      | Some h \<Rightarrow> (cancel h s)\<lparr>supervisory_handle := None\<rparr>)"

subsection \<open>Ack-advance\<close>

text \<open>
  \<^verbatim>\<open>range(self._ack, ack)\<close>, or \<^verbatim>\<open>chain(range(self._ack, 0x8000), range(ack))\<close>
  when the advertised number is below the current one.
\<close>

definition ack_ssns :: "int \<Rightarrow> int \<Rightarrow> int list" where
  "ack_ssns a r = (if r \<ge> a then [a..r - 1] else [a..0x8000 - 1] @ [0..r - 1])"

text \<open>The \<^verbatim>\<open>for ssn in ssns\<close> loop: pop the handle, raise when there is none, cancel it.\<close>

fun ack_loop :: "Connection \<Rightarrow> int list \<Rightarrow> Connection raising" where
  "ack_loop s [] = Inr s"
| "ack_loop s (n # ns) =
     (case map_of (waiting_ack_handles s) n of
        None \<Rightarrow> Inl (Exception ''received ack for unsent sequence number'', s)
      | Some handle \<Rightarrow>
          ack_loop (cancel handle
             (s\<lparr>waiting_ack_handles := AList.delete n (waiting_ack_handles s)\<rparr>)) ns)"

definition notify_all :: "Connection \<Rightarrow> Connection" where
  "notify_all s = s\<lparr>waiting_ack_cv := Suc (waiting_ack_cv s)\<rparr>"

definition set_ack :: "Connection \<Rightarrow> int \<Rightarrow> Connection raising" where
  "set_ack s r =
     (case ack_loop s (ack_ssns (ack s) r) of
        Inl e \<Rightarrow> Inl e
      | Inr s' \<Rightarrow> Inr (notify_all (s'\<lparr>ack := r\<rparr>)))"

text \<open>
  The modular half-open interval \<open>[a, r)\<close> of 15-bit sequence numbers, as the
  specification words it: the numbers whose distance from \<open>a\<close> is below the distance of
  \<open>r\<close> from \<open>a\<close>, both modulo \<open>2^15\<close>.
\<close>

definition in_mod_interval :: "int \<Rightarrow> int \<Rightarrow> int \<Rightarrow> bool" where
  "in_mod_interval a r n \<longleftrightarrow>
     0 \<le> n \<and> n < 0x8000 \<and> (n - a) mod 0x8000 < (r - a) mod 0x8000"

subsection \<open>Timer callbacks\<close>

definition on_response_timeout :: "Connection \<Rightarrow> Connection" where
  "on_response_timeout s = close s"

text \<open>The frame is written inside \<^verbatim>\<open>try\<close>; the modelled write cannot raise.\<close>

definition on_supervisory_timeout :: "Connection \<Rightarrow> Connection" where
  "on_supervisory_timeout s =
     (write_apdu (APDUS (rsn s)) (s\<lparr>supervisory_handle := None\<rparr>))\<lparr>w := 0\<rparr>"

text \<open>An armed timer expires: it leaves the armed timers and its callback runs.\<close>

definition fire :: "timer \<Rightarrow> Connection \<Rightarrow> Connection" where
  "fire t s =
     (let s' = cancel (timer_handle t) s
      in case timer_callback t of
           on_response_timeout_cb \<Rightarrow> on_response_timeout s'
         | on_supervisory_timeout_cb \<Rightarrow> on_supervisory_timeout s')"

subsection \<open>Reader\<close>

definition process_apduu :: "Connection \<Rightarrow> ApduFunction \<Rightarrow> Connection" where
  "process_apduu s function =
     (if function = STARTDT_ACT then
        write_apdu (APDUU STARTDT_CON) (s\<lparr>is_enabled := True\<rparr>)
      else if function = STOPDT_ACT then
        (if \<not> always_enabled s then
           write_apdu (APDUU STOPDT_CON)
             ((stop_supervisory_timeout
                 ((write_apdu (APDUS (rsn s)) s)\<lparr>w := 0\<rparr>))\<lparr>is_enabled := False\<rparr>)
         else s)
      else if function = TESTFR_ACT then
        write_apdu (APDUU TESTFR_CON) s
      else if function = TESTFR_CON then
        s\<lparr>test_event := True\<rparr>
      else s)"

definition process_apdus :: "Connection \<Rightarrow> int \<Rightarrow> Connection raising" where
  "process_apdus s r = set_ack s r"

definition receive_put :: "Connection \<Rightarrow> bytes \<Rightarrow> Connection raising" where
  "receive_put s data =
     (case put_nowait (receive_queue s) data of
        Inl e \<Rightarrow> Inl (e, s)
      | Inr q \<Rightarrow> Inr (s\<lparr>receive_queue := q\<rparr>))"

definition process_apdui :: "Connection \<Rightarrow> int \<Rightarrow> int \<Rightarrow> bytes \<Rightarrow> Connection raising" where
  "process_apdui s n_s n_r data =
     (case set_ack s n_r of
        Inl e \<Rightarrow> Inl e
      | Inr s1 \<Rightarrow>
          if n_s \<noteq> rsn s1 then Inl (Exception ''missing apdu sequence number'', s1)
          else
            let s2 = start_supervisory_timeout (s1\<lparr>rsn := (rsn s1 + 1) mod 0x8000\<rparr>)
            in case (if data \<noteq> [] then receive_put s2 data else Inr s2) of
                 Inl e \<Rightarrow> Inl e
               | Inr s3 \<Rightarrow>
                   let s4 = s3\<lparr>w := w s3 + 1\<rparr>
                   in Inr (if w s4 \<ge> receive_window_size s4 then
                             stop_supervisory_timeout
                               ((write_apdu (APDUS (rsn s4)) s4)\<lparr>w := 0\<rparr>)
                           else s4))"

definition process_apdu :: "Connection \<Rightarrow> APDU \<Rightarrow> Connection raising" where
  "process_apdu s apdu =
     (case apdu of
        APDUU function \<Rightarrow> Inr (process_apduu s function)
      | APDUS r \<Rightarrow> process_apdus s r
      | APDUI n_s n_r data \<Rightarrow> process_apdui s n_s n_r data)"

text \<open>The \<^verbatim>\<open>finally\<close> block of the read loop.\<close>

definition read_loop_finally :: "Connection \<Rightarrow> Connection" where
  "read_loop_finally s =
     (let s1 = close s
      in s1\<lparr>receive_queue := queue_close (receive_queue s1), reader_done := True\<rparr>)"

text \<open>
  What \<^verbatim>\<open>_read_apdu\<close> delivers: a decoded frame, or an exception (end of stream,
  undecodable bytes).
\<close>

datatype inbound = Frame APDU | ReadError error

text \<open>
  The read loop over the inbound events that arrive; with no event left it stays
  suspended in \<^verbatim>\<open>_read_apdu\<close>.  Every exception ends in the \<^verbatim>\<open>finally\<close> block.
\<close>

fun read_loop :: "Connection \<Rightarrow> inbound list \<Rightarrow> Connection" where
  "read_loop s [] = s"
| "read_loop s (ReadError e # evs) = read_loop_finally s"
| "read_loop s (Frame apdu # evs) =
     (case process_apdu s apdu of
        Inl (e, s') \<Rightarrow> read_loop_finally s'
      | Inr s' \<Rightarrow> read_loop s' evs)"

subsection \<open>Writer\<close>

text \<open>The body of the write loop after the window wait.\<close>

definition emit_data :: "Connection \<Rightarrow> bytes \<Rightarrow> Connection" where
  "emit_data s asdu =
     (if \<not> is_enabled s then s
      else
        let s1 = write_apdu (APDUI (ssn s) (rsn s) asdu) s;
            s2 = stop_supervisory_timeout (s1\<lparr>w := 0\<rparr>);
            (h, s3) = call_later (response_timeout s2) on_response_timeout_cb s2;
            s4 = s3\<lparr>waiting_ack_handles := AList.update (ssn s3) h (waiting_ack_handles s3)\<rparr>
        in s4\<lparr>ssn := (ssn s4 + 1) mod 0x8000\<rparr>)"

text \<open>
  \<^verbatim>\<open>wait_for(lambda: len(waiting_ack_handles) < send_window_size)\<close>: with the
  predicate false the loop stays suspended holding the payload, otherwise it goes on
  without yielding.
\<close>

definition wait_window :: "Connection \<Rightarrow> bytes \<Rightarrow> Connection" where
  "wait_window s asdu =
     (if int (length (waiting_ack_handles s)) < send_window_size s
      then emit_data (s\<lparr>writer := AwaitItem\<rparr>) asdu
      else s\<lparr>writer := AwaitWindow asdu\<rparr>)"

text \<open>One turn of the write loop, from the place where it is suspended.\<close>

definition write_step :: "Connection \<Rightarrow> Connection raising" where
  "write_step s =
     (case writer s of
        WriterDone \<Rightarrow> Inr s
      | AwaitWindow asdu \<Rightarrow> Inr (wait_window s asdu)
      | AwaitItem \<Rightarrow>
          (case queue_get (send_queue s) of
             Blocked \<Rightarrow> Inr s
           | Closed \<Rightarrow> Inl (QueueClosedError, s)
           | Got item q \<Rightarrow>
               (let s1 = s\<lparr>send_queue := q\<rparr>
                in case item of
                     Future f \<Rightarrow>
                       Inr (if futures s1 f = Pending
                            then s1\<lparr>futures := (futures s1)(f := Result)\<rparr> else s1)
                   | Data asdu \<Rightarrow>
                       if ssn s1 \<in> set (map fst (waiting_ack_handles s1))
                       then Inl (Exception ''can not reuse already registered ssn'', s1)
                       else Inr (wait_window s1 asdu))))"

text \<open>
  The last loop of the \<^verbatim>\<open>finally\<close> block: every item is taken from the queue, and
  a future that is not done gets the exception.
\<close>

fun fail_pending :: "send_item list \<Rightarrow> (nat \<Rightarrow> future_state) \<Rightarrow> (nat \<Rightarrow> future_state)" where
  "fail_pending [] fs = fs"
| "fail_pending (Data asdu # xs) fs = fail_pending xs fs"
| "fail_pending (Future f # xs) fs =
     fail_pending xs (if fs f = Pending then fs(f := Failed ConnectionError) else fs)"

definition write_loop_finally :: "Connection \<Rightarrow> Connection" where
  "write_loop_finally s =
     (let s1 = close s;
          s2 = stop_supervisory_timeout s1;
          s3 = s2\<lparr>send_queue := queue_close (send_queue s2)\<rparr>;
          s4 = fold cancel (map snd (waiting_ack_handles s3)) s3
      in s4\<lparr>futures := fail_pending (queue_items (send_queue s4)) (futures s4),
            send_queue := (send_queue s4)\<lparr>queue_items := []\<rparr>,
            writer := WriterDone\<rparr>)"

text \<open>
  A turn of the writer task: cancelled once the connection is closing, otherwise one
  turn of the loop, whose exceptions all end in the \<^verbatim>\<open>finally\<close> block.
\<close>

definition writer_turn :: "Connection \<Rightarrow> Connection" where
  "writer_turn s =
     (if writer s = WriterDone then s
      else if closing s then write_loop_finally s
      else case write_step s of
             Inl (e, s') \<Rightarrow> write_loop_finally s'
           | Inr s' \<Rightarrow> s')"

fun writer_turns :: "nat \<Rightarrow> Connection \<Rightarrow> Connection" where
  "writer_turns 0 s = s"
| "writer_turns (Suc n) s = writer_turns n (writer_turn s)"

subsection \<open>Tester\<close>

definition test_probe :: "Connection \<Rightarrow> Connection" where
  "test_probe s = write_apdu (APDUU TESTFR_ACT) (s\<lparr>test_event := False\<rparr>)"

definition test_loop_finally :: "Connection \<Rightarrow> Connection" where
  "test_loop_finally s = close s"

subsection \<open>Public operations\<close>

definition send :: "Connection \<Rightarrow> bytes \<Rightarrow> Connection raising" where
  "send s data =
     (case put_nowait (send_queue s) (Data data) of
        Inl e \<Rightarrow> Inl (if e = QueueClosedError then ConnectionError else e, s)
      | Inr q \<Rightarrow> Inr (s\<lparr>send_queue := q\<rparr>))"

text \<open>The first half of \<^verbatim>\<open>drain\<close>: a new future \<open>f\<close> is put into the send queue.\<close>

definition drain_put :: "Connection \<Rightarrow> nat \<Rightarrow> Connection raising" where
  "drain_put s f =
     (let s1 = s\<lparr>futures := (futures s)(f := Pending)\<rparr>
      in case put_nowait (send_queue s1) (Future f) of
           Inl e \<Rightarrow> Inl (if e = QueueClosedError then ConnectionError else e, s1)
         | Inr q \<Rightarrow> Inr (s1\<lparr>send_queue := q\<rparr>))"

datatype 'a awaited = Returned 'a | Suspended | Raised error

definition receive :: "Connection \<Rightarrow> (bytes \<times> Connection) awaited" where
  "receive s =
     (case queue_get (receive_queue s) of
        Got data q \<Rightarrow> Returned (data, s\<lparr>receive_queue := q\<rparr>)
      | Blocked \<Rightarrow> Suspended
      | Closed \<Rightarrow> Raised ConnectionError)"

text \<open>The outcomes of \<open>n\<close> calls of \<^verbatim>\<open>receive\<close> in a row, up to the first that suspends.\<close>

fun receive_calls :: "nat \<Rightarrow> Connection \<Rightarrow> bytes awaited list" where
  "receive_calls 0 s = []"
| "receive_calls (Suc n) s =
     (case receive s of
        Returned (data, s') \<Rightarrow> Returned data # receive_calls n s'
      | Suspended \<Rightarrow> [Suspended]
      | Raised e \<Rightarrow> Raised e # receive_calls n s)"

subsection \<open>Construction and the client handshake\<close>

record tcp_connection =
  tcp_written :: "APDU list"
  tcp_closed :: bool

definition new_connection ::
  "tcp_connection \<Rightarrow> bool \<Rightarrow> real \<Rightarrow> real \<Rightarrow> real \<Rightarrow> int \<Rightarrow> int \<Rightarrow> Connection" where
  "new_connection conn always_en t1 t2 t3 k w_max =
     \<lparr>wire = tcp_written conn,
      always_enabled = always_en,
      is_enabled = always_en,
      response_timeout = t1,
      supervisory_timeout = t2,
      test_timeout = t3,
      send_window_size = k,
      receive_window_size = w_max,
      receive_queue = \<lparr>queue_items = [], queue_closed = False\<rparr>,
      send_queue = \<lparr>queue_items = [], queue_closed = False\<rparr>,
      test_event = False,
      ssn = 0,
      rsn = 0,
      ack = 0,
      w = 0,
      supervisory_handle = None,
      waiting_ack_handles = [],
      waiting_ack_cv = 0,
      timers = [],
      next_handle = 0,
      futures = (\<lambda>f. Pending),
      closing = tcp_closed conn,
      writer = AwaitItem,
      reader_done = False\<rparr>"

text \<open>
  \<^verbatim>\<open>_wait_startdt_con\<close> over the inbound events that arrive before the response
  timeout; when they are used up \<^verbatim>\<open>aio.wait_for\<close> raises the timeout.
\<close>

fun wait_startdt_con ::
  "tcp_connection \<Rightarrow> inbound list \<Rightarrow> (error \<times> tcp_connection) + tcp_connection" where
  "wait_startdt_con conn [] = Inl (TimeoutError, conn)"
| "wait_startdt_con conn (ReadError e # evs) = Inl (e, conn)"
| "wait_startdt_con conn (Frame (APDUU function) # evs) =
     (if function = STARTDT_CON then Inr conn
      else if function = TESTFR_ACT then
        wait_startdt_con (conn\<lparr>tcp_written := tcp_written conn @ [APDUU TESTFR_CON]\<rparr>) evs
      else wait_startdt_con conn evs)"
| "wait_startdt_con conn (Frame req # evs) = wait_startdt_con conn evs"

text \<open>
  Modelled from the spec: \<^verbatim>\<open>aio.wait_for\<close> is not among the sources.  Every inbound
  event carries its arrival time, in seconds from the start of the wait and in the order
  of arrival.  A wait bounded by \<open>timeout\<close> is given the events that arrive before the
  timeout expires; when these are used up without a result, the timeout is raised.
\<close>

definition arrived_within :: "real \<Rightarrow> (real \<times> inbound) list \<Rightarrow> inbound list" where
  "arrived_within timeout evs = map snd (takeWhile (\<lambda>p. fst p < timeout) evs)"

text \<open>
  \<^verbatim>\<open>connect\<close> on the stream \<open>conn\<close> that \<^verbatim>\<open>tcp.connect\<close> returned: the wait for
  \<open>U(STARTDT_CON)\<close> is bounded by the response timeout \<open>t1\<close>, and on an exception the
  stream is closed and the exception raised again.
\<close>

definition connect ::
  "tcp_connection \<Rightarrow> (real \<times> inbound) list \<Rightarrow> real \<Rightarrow> real \<Rightarrow> real \<Rightarrow> int \<Rightarrow> int
     \<Rightarrow> (error \<times> tcp_connection) + Connection" where
  "connect conn evs t1 t2 t3 k w_max =
     (case wait_startdt_con (conn\<lparr>tcp_written := tcp_written conn @ [APDUU STARTDT_ACT]\<rparr>)
             (arrived_within t1 evs) of
        Inl (e, conn') \<Rightarrow> Inl (e, conn'\<lparr>tcp_closed := True\<rparr>)
      | Inr conn' \<Rightarrow> Inr (new_connection conn' True t1 t2 t3 k w_max))"

subsection \<open>Auxiliary notions for the statements\<close>

text \<open>
  The connection after the entries of the sequence numbers \<open>ns\<close> were popped and their
  timers cancelled.
\<close>

definition ack_popped :: "Connection \<Rightarrow> int list \<Rightarrow> Connection" where
  "ack_popped s ns =
     s\<lparr>waiting_ack_handles := filter (\<lambda>p. fst p \<notin> set ns) (waiting_ack_handles s),
       timers := filter (\<lambda>t. \<forall>n\<in>set ns. map_of (waiting_ack_handles s) n \<noteq> Some (timer_handle t))
                   (timers s)\<rparr>"


subsection \<open>Example connections\<close>

definition fresh_tcp :: tcp_connection where
  "fresh_tcp = \<lparr>tcp_written = [], tcp_closed = False\<rparr>"

text \<open>A client and a server connection with the default parameters.\<close>

definition client_conn :: Connection where
  "client_conn = new_connection fresh_tcp True 15 10 20 12 8"

definition server_conn :: Connection where
  "server_conn = new_connection fresh_tcp False 15 10 20 12 8"

text \<open>
  A client whose frames \<open>0x7FFE\<close> and \<open>0x7FFF\<close> are outstanding, so that the next send
  sequence number wrapped to \<open>0\<close>.
\<close>

definition wrap_conn :: Connection where
  "wrap_conn =
     client_conn\<lparr>ssn := 0, ack := 0x7FFE,
       waiting_ack_handles := [(0x7FFE, 0), (0x7FFF, 1)],
       timers := [\<lparr>timer_handle = 0, timer_delay = 15, timer_callback = on_response_timeout_cb\<rparr>,
                  \<lparr>timer_handle = 1, timer_delay = 15, timer_callback = on_response_timeout_cb\<rparr>],
       next_handle := 2\<rparr>"

text \<open>
  The closed modular interval \<open>[a, b]\<close> of 15-bit sequence numbers: the legal values of
  an advertised \<open>N_R\<close> when \<open>a\<close> is \<open>ack\<close> and \<open>b\<close> is \<open>ssn\<close>.
\<close>

definition in_mod_closed :: "int \<Rightarrow> int \<Rightarrow> int \<Rightarrow> bool" where
  "in_mod_closed a b n \<longleftrightarrow>
     0 \<le> n \<and> n < 0x8000 \<and> (n - a) mod 0x8000 \<le> (b - a) mod 0x8000"

text \<open>The client after two payloads were sent and written, none acknowledged yet.\<close>

definition sent2_conn :: Connection where
  "sent2_conn =
     writer_turns 2
       (client_conn\<lparr>send_queue := \<lparr>queue_items = [Data [1], Data [2]], queue_closed = False\<rparr>\<rparr>)"

text \<open>A server connection that acknowledges every single I-frame.\<close>

definition eager_conn :: Connection where
  "eager_conn = new_connection fresh_tcp False 15 10 20 12 1"

text \<open>
  An interleaving of calls of \<^verbatim>\<open>send\<close> by the user with turns of the writer task; a
  call that raises leaves the connection as it is.
\<close>

datatype user_act = UserSend bytes | WriterTurn

fun run_acts :: "Connection \<Rightarrow> user_act list \<Rightarrow> Connection" where
  "run_acts s [] = s"
| "run_acts s (UserSend data # acts) =
     run_acts (case send s data of Inl (e, s') \<Rightarrow> s' | Inr s' \<Rightarrow> s') acts"
| "run_acts s (WriterTurn # acts) = run_acts (writer_turn s) acts"

text \<open>The server after the peer started the data transfer.\<close>

definition started_conn :: Connection where
  "started_conn = process_apduu server_conn STARTDT_ACT"

text \<open>
  The inbound events the handshake passes over (every frame but \<open>U(STARTDT_CON)\<close>), and
  the frames it writes while passing over a run of them.
\<close>

fun passed_over :: "inbound \<Rightarrow> bool" where
  "passed_over (ReadError e) = False"
| "passed_over (Frame apdu) = (apdu \<noteq> APDUU STARTDT_CON)"

definition test_replies :: "inbound list \<Rightarrow> APDU list" where
  "test_replies evs = map (\<lambda>ev. APDUU TESTFR_CON) (filter (\<lambda>ev. ev = Frame (APDUU TESTFR_ACT)) evs)"

text \<open>
  The started server after two I-frames with payloads arrived and the stream ended.
\<close>

definition ended_conn :: Connection where
  "ended_conn =
     read_loop started_conn
       [Frame (APDUI 0 0 [1]), Frame (APDUI 1 0 [2]), ReadError ConnectionError]"

text \<open>
  A client that is closing while a payload, a drain future and another payload are
  still in the send queue.
\<close>

definition closing_conn :: Connection where
  "closing_conn =
     close (client_conn\<lparr>send_queue :=
              \<lparr>queue_items = [Data [1], Future 7, Data [2]], queue_closed = False\<rparr>\<rparr>)"

text \<open>
  A client with a send window above \<open>2^15\<close> after \<open>n\<close> payloads were sent and written
  while the peer acknowledged nothing, and the same with one more payload queued.
\<close>

definition wide_conn :: Connection where
  "wide_conn = new_connection fresh_tcp True 15 10 20 40000 8"

definition sent_conn :: "nat \<Rightarrow> Connection" where
  "sent_conn n =
     wide_conn\<lparr>wire := map (\<lambda>i. APDUI (int i) 0 [0]) [0..<n],
       ssn := int n mod 0x8000,
       waiting_ack_handles := map (\<lambda>i. (int i, i)) [0..<n],
       timers := map (\<lambda>i. \<lparr>timer_handle = i, timer_delay = 15,
                             timer_callback = on_response_timeout_cb\<rparr>) [0..<n],
       next_handle := n\<rparr>"

definition reuse_conn :: Connection where
  "reuse_conn =
     (sent_conn 32768)\<lparr>send_queue := \<lparr>queue_items = [Data [0]], queue_closed = False\<rparr>\<rparr>"

text \<open>The response timer that \<^verbatim>\<open>call_later\<close> arms for the next I-frame of \<open>s\<close>.\<close>

definition response_timer :: "Connection \<Rightarrow> timer" where
  "response_timer s =
     \<lparr>timer_handle = next_handle s, timer_delay = response_timeout s,
      timer_callback = on_response_timeout_cb\<rparr>"

text \<open>The client with one payload in its send queue.\<close>

definition queued_conn :: Connection where
  "queued_conn =
     client_conn\<lparr>send_queue := \<lparr>queue_items = [Data [1]], queue_closed = False\<rparr>\<rparr>"

subsection \<open>Schedules\<close>

text \<open>
  What can happen to a connection between two suspension points: the reader gets a frame
  or an exception from the stream, ack-advance runs, the writer or the tester takes a
  turn, an armed timer expires, or the user calls a public operation.  A task of a
  closing connection is cancelled and runs its \<^verbatim>\<open>finally\<close> block.
\<close>

datatype event =
  Inbound inbound | AckAdvance int | WriterTurns | TimerExpires nat
  | Send bytes | Drain nat | Receive | Close | TestProbe | TestTimeout

definition reader_turn :: "Connection \<Rightarrow> inbound \<Rightarrow> Connection" where
  "reader_turn s ev =
     (if reader_done s then s
      else if closing s then read_loop_finally s
      else read_loop s [ev])"

definition apply_event :: "Connection \<Rightarrow> event \<Rightarrow> Connection" where
  "apply_event s ev =
     (case ev of
        Inbound i \<Rightarrow> reader_turn s i
      | AckAdvance r \<Rightarrow> (case set_ack s r of Inl (e, s') \<Rightarrow> s' | Inr s' \<Rightarrow> s')
      | WriterTurns \<Rightarrow> writer_turn s
      | TimerExpires h \<Rightarrow>
          (case find (\<lambda>t. timer_handle t = h) (timers s) of
             None \<Rightarrow> s
           | Some t \<Rightarrow> fire t s)
      | Send data \<Rightarrow> (case send s data of Inl (e, s') \<Rightarrow> s' | Inr s' \<Rightarrow> s')
      | Drain f \<Rightarrow> (case drain_put s f of Inl (e, s') \<Rightarrow> s' | Inr s' \<Rightarrow> s')
      | Receive \<Rightarrow> (case receive s of Returned (data, s') \<Rightarrow> s' | Suspended \<Rightarrow> s | Raised e \<Rightarrow> s)
      | Close \<Rightarrow> close s
      | TestProbe \<Rightarrow> (if closing s then s else test_probe s)
      | TestTimeout \<Rightarrow> test_loop_finally s)"

definition run :: "Connection \<Rightarrow> event list \<Rightarrow> Connection" where
  "run s evs = foldl apply_event s evs"

text \<open>The window invariant; the keys of the dictionary \<open>waiting_ack\<close> are distinct.\<close>

definition window_inv :: "Connection \<Rightarrow> bool" where
  "window_inv s \<longleftrightarrow>
     distinct (map fst (waiting_ack_handles s))
     \<and> int (length (waiting_ack_handles s)) \<le> send_window_size s
     \<and> w s < receive_window_size s"

text \<open>
  A started server with both windows of size two: three payloads are sent, the writer
  takes three turns, and two I-frames arrive, the second acknowledging one frame.
\<close>

definition busy_events :: "event list" where
  "busy_events =
     [Inbound (Frame (APDUU STARTDT_ACT)), Send [1], Send [2], Send [3],
      WriterTurns, WriterTurns, WriterTurns,
      Inbound (Frame (APDUI 0 0 [7])), Inbound (Frame (APDUI 1 1 [8])), WriterTurns]"

text \<open>The numbered frames among the frames on the wire.\<close>

fun is_apdui :: "APDU \<Rightarrow> bool" where
  "is_apdui (APDUI n_s n_r data) = True"
| "is_apdui (APDUS n_r) = False"
| "is_apdui (APDUU f) = False"

text \<open>
  The server is stopped, a payload is sent, the peer starts the data transfer again and
  the writer takes its turn.
\<close>

definition restart_events :: "event list" where
  "restart_events =
     [Inbound (Frame (APDUU STARTDT_ACT)), Inbound (Frame (APDUU STOPDT_ACT)), Send [3],
      Inbound (Frame (APDUU STARTDT_ACT)), WriterTurns]"

text \<open>Frames that reach the connecting client one second apart.\<close>

definition early_events :: "(real \<times> inbound) list" where
  "early_events =
     [(1, Frame (APDUS 0)), (2, Frame (APDUU TESTFR_ACT)), (3, Frame (APDUI 0 0 [1])),
      (4, Frame (APDUU STOPDT_CON))]"

section \<open>Properties\<close>

subsection \<open>Sequence-number intervals\<close>

lemma mod_diff_cases:
  fixes x y :: int
  assumes "0 \<le> x" "x < m" "0 \<le> y" "y < m"
  shows "(x - y) mod m = (if y \<le> x then x - y else x - y + m)"
proof (cases "y \<le> x")
  case True
  then show ?thesis using assms by (simp add: mod_pos_pos_trivial)
next
  case False
  have "(x - y) mod m = (x - y + m) mod m" by simp
  also have "\<dots> = x - y + m" using assms False by (intro mod_pos_pos_trivial) auto
  finally show ?thesis using False by simp
qed

lemma set_ack_ssns:
  assumes "0 \<le> a" "a < 0x8000" "0 \<le> r" "r < 0x8000"
  shows "n \<in> set (ack_ssns a r) \<longleftrightarrow> in_mod_interval a r n"
proof (cases "0 \<le> n \<and> n < 0x8000")
  case True
  then show ?thesis
    using assms
    by (auto simp: ack_ssns_def in_mod_interval_def mod_diff_cases)
next
  case False
  then show ?thesis
    using assms by (auto simp: ack_ssns_def in_mod_interval_def)
qed

lemma distinct_ack_ssns: "distinct (ack_ssns a r)"
  by (auto simp: ack_ssns_def)

lemma upto_as_map: "[a..b] = map (\<lambda>i. a + int i) [0..<nat (b - a + 1)]"
proof (induction "nat (b - a + 1)" arbitrary: b)
  case 0
  then show ?case by simp
next
  case (Suc k)
  then have le: "a \<le> b" and k: "k = nat (b - 1 - a + 1)" by linarith+
  have "[a..b] = [a..b - 1] @ [b]" using le by (rule upto_rec2)
  also have "[a..b - 1] = map (\<lambda>i. a + int i) [0..<k]"
    using Suc.hyps(1)[OF k] k by simp
  finally have "[a..b] = map (\<lambda>i. a + int i) [0..<k] @ [b]" .
  moreover have "b = a + int k" using k le by simp
  ultimately show ?case using Suc.hyps(2)[symmetric] by simp
qed

lemma ack_ssns_as_map:
  assumes "0 \<le> a" "a < 0x8000" "0 \<le> r" "r < 0x8000"
  shows "ack_ssns a r = map (\<lambda>i. (a + int i) mod 0x8000) [0..<nat ((r - a) mod 0x8000)]"
proof (cases "a \<le> r")
  case True
  have "ack_ssns a r = map (\<lambda>i. a + int i) [0..<nat (r - a)]"
    using True upto_as_map[of a "r - 1"] by (simp add: ack_ssns_def)
  also have "\<dots> = map (\<lambda>i. (a + int i) mod 0x8000) [0..<nat (r - a)]"
    using assms by (intro map_cong refl) (auto simp: mod_pos_pos_trivial)
  finally show ?thesis using True assms by (simp add: mod_diff_cases)
next
  case False
  let ?n1 = "nat (0x8000 - a)"
  have len: "nat ((r - a) mod 0x8000) = ?n1 + nat r"
    using False assms by (simp add: mod_diff_cases)
  have 1: "[a..0x8000 - 1] = map (\<lambda>i. (a + int i) mod 0x8000) [0..<?n1]"
  proof -
    have "[a..0x8000 - 1] = map (\<lambda>i. a + int i) [0..<?n1]"
      using upto_as_map[of a 32767] by (simp add: algebra_simps)
    also have "\<dots> = map (\<lambda>i. (a + int i) mod 0x8000) [0..<?n1]"
      using assms by (intro map_cong refl) (auto simp: mod_pos_pos_trivial)
    finally show ?thesis .
  qed
  have 2: "[0..r - 1] = map (\<lambda>i. (a + int i) mod 0x8000) [?n1..<?n1 + nat r]"
  proof -
    have "[0..r - 1] = map (\<lambda>i. 0 + int i) [0..<nat r]"
      using upto_as_map[of 0 "r - 1"] by simp
    also have "\<dots> = map (\<lambda>i. (a + int (i + ?n1)) mod 0x8000) [0..<nat r]"
    proof (intro map_cong refl)
      fix i assume "i \<in> set [0..<nat r]"
      then have i: "int i < r" by auto
      have "(a + int (i + ?n1)) mod 0x8000 = (int i + 0x8000) mod 0x8000"
        using assms by (simp add: algebra_simps)
      also have "\<dots> = int i" using i assms by (simp add: mod_pos_pos_trivial)
      finally show "0 + int i = (a + int (i + ?n1)) mod 0x8000" by simp
    qed
    also have "\<dots> = map (\<lambda>i. (a + int i) mod 0x8000) (map (\<lambda>i. i + ?n1) [0..<nat r])"
      by (simp add: comp_def)
    also have "map (\<lambda>i. i + ?n1) [0..<nat r] = [?n1..<?n1 + nat r]"
      by (simp add: map_add_upt add.commute)
    finally show ?thesis .
  qed
  have sp: "[0..<?n1 + nat r] = [0..<?n1] @ [?n1..<?n1 + nat r]"
    by (rule upt_add_eq_append) simp
  have "ack_ssns a r = [a..0x8000 - 1] @ [0..r - 1]"
    using False by (simp add: ack_ssns_def)
  also have "\<dots> = map (\<lambda>i. (a + int i) mod 0x8000) [0..<?n1]
                  @ map (\<lambda>i. (a + int i) mod 0x8000) [?n1..<?n1 + nat r]"
    by (simp only: 1 2)
  also have "\<dots> = map (\<lambda>i. (a + int i) mod 0x8000) [0..<?n1 + nat r]"
    by (simp only: sp map_append)
  finally show ?thesis unfolding len .
qed

subsection \<open>The ack-advance loop\<close>

lemma ack_popped_Nil: "ack_popped s [] = s"
  by (simp add: ack_popped_def)

lemma map_of_filter_fst_neq:
  "m \<noteq> n \<Longrightarrow> map_of (filter (\<lambda>p. fst p \<noteq> n) xs) m = map_of xs m"
  by (induction xs) auto

lemma delete_as_filter: "AList.delete n xs = filter (\<lambda>p. fst p \<noteq> n) xs"
  by (induction xs) auto

lemma ack_popped_Cons:
  assumes "map_of (waiting_ack_handles s) n = Some h" "n \<notin> set ns"
  shows "ack_popped (cancel h (s\<lparr>waiting_ack_handles := AList.delete n (waiting_ack_handles s)\<rparr>)) ns
         = ack_popped s (n # ns)"
proof -
  have d: "AList.delete n (waiting_ack_handles s) = filter (\<lambda>p. fst p \<noteq> n) (waiting_ack_handles s)"
    by (rule delete_as_filter)
  have 1: "filter (\<lambda>p. fst p \<notin> set ns) (filter (\<lambda>p. fst p \<noteq> n) (waiting_ack_handles s))
        = filter (\<lambda>p. fst p \<notin> set (n # ns)) (waiting_ack_handles s)"
    by (auto intro: filter_cong)
  have m: "\<And>m. m \<in> set ns \<Longrightarrow>
      map_of (filter (\<lambda>p. fst p \<noteq> n) (waiting_ack_handles s)) m = map_of (waiting_ack_handles s) m"
    using assms(2) by (intro map_of_filter_fst_neq) auto
  have 2: "filter (\<lambda>t. \<forall>m\<in>set ns. map_of (filter (\<lambda>p. fst p \<noteq> n) (waiting_ack_handles s)) m \<noteq> Some (timer_handle t))
             (filter (\<lambda>t. timer_handle t \<noteq> h) (timers s))
        = filter (\<lambda>t. \<forall>m\<in>set (n # ns). map_of (waiting_ack_handles s) m \<noteq> Some (timer_handle t)) (timers s)"
    using assms(1) m by (auto intro!: filter_cong)
  show ?thesis
    unfolding ack_popped_def cancel_def d by (simp del: filter_filter add: 1 2)
qed

lemma keys_delete:
  "m \<noteq> n \<Longrightarrow> m \<in> fst ` set (AList.delete n xs) \<longleftrightarrow> m \<in> fst ` set xs"
  by (induction xs) (auto simp: image_iff)

lemma ack_loop_char:
  "distinct ns \<Longrightarrow>
   ack_loop s ns =
     (let ok = takeWhile (\<lambda>n. n \<in> fst ` set (waiting_ack_handles s)) ns
      in if ok = ns then Inr (ack_popped s ns)
         else Inl (Exception ''received ack for unsent sequence number'', ack_popped s ok))"
proof (induction ns arbitrary: s)
  case Nil
  then show ?case by (simp add: ack_popped_Nil)
next
  case (Cons n ns)
  show ?case
  proof (cases "map_of (waiting_ack_handles s) n")
    case None
    then have "n \<notin> fst ` set (waiting_ack_handles s)" by (simp add: map_of_eq_None_iff)
    then show ?thesis using None by (simp add: ack_popped_Nil)
  next
    case (Some h)
    then have inn: "n \<in> fst ` set (waiting_ack_handles s)"
      by (metis map_of_eq_None_iff option.distinct(1))
    let ?s1 = "cancel h (s\<lparr>waiting_ack_handles := AList.delete n (waiting_ack_handles s)\<rparr>)"
    have w1: "waiting_ack_handles ?s1 = AList.delete n (waiting_ack_handles s)"
      by (simp add: cancel_def)
    have nn: "n \<notin> set ns" and dn: "distinct ns" using Cons.prems by auto
    have tw: "takeWhile (\<lambda>m. m \<in> fst ` set (waiting_ack_handles ?s1)) ns
            = takeWhile (\<lambda>m. m \<in> fst ` set (waiting_ack_handles s)) ns"
    proof (intro takeWhile_cong refl)
      fix m assume "m \<in> set ns"
      then have "m \<noteq> n" using nn by auto
      then show "(m \<in> fst ` set (waiting_ack_handles ?s1)) = (m \<in> fst ` set (waiting_ack_handles s))"
        unfolding w1 by (rule keys_delete)
    qed
    have nt: "n \<notin> set (takeWhile (\<lambda>m. m \<in> fst ` set (waiting_ack_handles s)) ns)"
      using nn by (meson set_takeWhileD)
    show ?thesis
      using Some inn Cons.IH[OF dn, of ?s1]
      by (simp add: tw Let_def ack_popped_Cons[OF Some nn] ack_popped_Cons[OF Some nt])
  qed
qed


lemma set_ack_char:
  "set_ack s r =
     (if \<forall>n\<in>set (ack_ssns (ack s) r). n \<in> fst ` set (waiting_ack_handles s)
      then Inr (notify_all ((ack_popped s (ack_ssns (ack s) r))\<lparr>ack := r\<rparr>))
      else Inl (Exception ''received ack for unsent sequence number'',
                ack_popped s (takeWhile (\<lambda>n. n \<in> fst ` set (waiting_ack_handles s))
                                (ack_ssns (ack s) r))))"
  unfolding set_ack_def ack_loop_char[OF distinct_ack_ssns]
  by (simp add: Let_def takeWhile_eq_all_conv)

lemma read_loop_finally_closed:
  "closing (read_loop_finally s)" "reader_done (read_loop_finally s)"
  "queue_closed (receive_queue (read_loop_finally s))"
  by (simp_all add: read_loop_finally_def close_def queue_close_def Let_def)

lemma set_ack_idem: "set_ack s (ack s) = Inr (notify_all s)"
proof -
  have "ack_ssns (ack s) (ack s) = []" by (simp add: ack_ssns_def)
  then show ?thesis by (simp add: set_ack_def)
qed

subsection \<open>Claims on ack-advance\<close>

text \<open>
  C1.  Ack-advance with advertised \<open>N_R = r\<close> and current \<open>ack = a\<close>, both 15-bit
  sequence numbers: the sequence numbers it visits are exactly the modular half-open
  interval \<open>[a, r)\<close>, in the order \<open>a, a + 1, \<dots>\<close> modulo \<open>2^15\<close>.  When each of them has
  an entry in \<open>waiting_ack\<close>, the call returns, these entries are removed, their timers
  cancelled, \<open>ack\<close> is \<open>r\<close>, and the condition variable is notified.  When one of them has
  no entry, the call raises the ack-for-unsent exception with \<open>ack\<close> unchanged and without
  notifying, and the read loop that received the S- or I-frame closes the connection.
\<close>

theorem set_ack_advance:
  assumes "0 \<le> ack s" "ack s < 0x8000" "0 \<le> r" "r < 0x8000"
  shows "(\<forall>n. n \<in> set (ack_ssns (ack s) r) \<longleftrightarrow> in_mod_interval (ack s) r n)
    \<and> ack_ssns (ack s) r
        = map (\<lambda>i. (ack s + int i) mod 0x8000) [0..<nat ((r - ack s) mod 0x8000)]
    \<and> ((\<forall>n. in_mod_interval (ack s) r n \<longrightarrow> n \<in> fst ` set (waiting_ack_handles s)) \<longrightarrow>
         set_ack s r =
           Inr (s\<lparr>waiting_ack_handles :=
                   filter (\<lambda>p. \<not> in_mod_interval (ack s) r (fst p)) (waiting_ack_handles s),
                 timers :=
                   filter (\<lambda>t. \<forall>n. in_mod_interval (ack s) r n \<longrightarrow>
                                 map_of (waiting_ack_handles s) n \<noteq> Some (timer_handle t))
                     (timers s),
                 ack := r,
                 waiting_ack_cv := Suc (waiting_ack_cv s)\<rparr>))
    \<and> ((\<exists>n. in_mod_interval (ack s) r n \<and> n \<notin> fst ` set (waiting_ack_handles s)) \<longrightarrow>
         (\<exists>s'. set_ack s r = Inl (Exception ''received ack for unsent sequence number'', s')
               \<and> ack s' = ack s \<and> waiting_ack_cv s' = waiting_ack_cv s)
         \<and> (\<forall>evs. closing (read_loop s (Frame (APDUS r) # evs)))
         \<and> (\<forall>n_s data evs. closing (read_loop s (Frame (APDUI n_s r data) # evs))))"
proof -
  note iv = set_ack_ssns[OF assms]
  have A: "\<forall>n. n \<in> set (ack_ssns (ack s) r) \<longleftrightarrow> in_mod_interval (ack s) r n"
    using iv by blast
  have B: "ack_ssns (ack s) r
        = map (\<lambda>i. (ack s + int i) mod 0x8000) [0..<nat ((r - ack s) mod 0x8000)]"
    by (rule ack_ssns_as_map[OF assms])
  have C: "set_ack s r =
           Inr (s\<lparr>waiting_ack_handles :=
                   filter (\<lambda>p. \<not> in_mod_interval (ack s) r (fst p)) (waiting_ack_handles s),
                 timers :=
                   filter (\<lambda>t. \<forall>n. in_mod_interval (ack s) r n \<longrightarrow>
                                 map_of (waiting_ack_handles s) n \<noteq> Some (timer_handle t))
                     (timers s),
                 ack := r,
                 waiting_ack_cv := Suc (waiting_ack_cv s)\<rparr>)"
    if "\<forall>n. in_mod_interval (ack s) r n \<longrightarrow> n \<in> fst ` set (waiting_ack_handles s)"
  proof -
    have "\<forall>n\<in>set (ack_ssns (ack s) r). n \<in> fst ` set (waiting_ack_handles s)"
      using that iv by blast
    then show ?thesis
      by (simp add: set_ack_char ack_popped_def notify_all_def iv Ball_def)
  qed
  have D: "(\<exists>s'. set_ack s r = Inl (Exception ''received ack for unsent sequence number'', s')
               \<and> ack s' = ack s \<and> waiting_ack_cv s' = waiting_ack_cv s)
         \<and> (\<forall>evs. closing (read_loop s (Frame (APDUS r) # evs)))
         \<and> (\<forall>n_s data evs. closing (read_loop s (Frame (APDUI n_s r data) # evs)))"
    if "\<exists>n. in_mod_interval (ack s) r n \<and> n \<notin> fst ` set (waiting_ack_handles s)"
  proof -
    have "\<not> (\<forall>n\<in>set (ack_ssns (ack s) r). n \<in> fst ` set (waiting_ack_handles s))"
      using that iv by blast
    then obtain s' where s': "set_ack s r = Inl (Exception ''received ack for unsent sequence number'', s')"
      and f: "ack s' = ack s" "waiting_ack_cv s' = waiting_ack_cv s"
      by (simp add: set_ack_char ack_popped_def)
    show ?thesis
      using s' f
      by (auto simp: process_apdu_def process_apdus_def process_apdui_def read_loop_finally_closed)
  qed
  show ?thesis using A B C D by blast
qed

theorem set_ack_advance_witness:
  "0 \<le> ack wrap_conn \<and> ack wrap_conn < 0x8000 \<and> (0::int) \<le> 0 \<and> (0::int) < 0x8000
   \<and> ack_ssns (ack wrap_conn) 0 = [0x7FFE, 0x7FFF]
   \<and> set_ack wrap_conn 0 =
       Inr (wrap_conn\<lparr>waiting_ack_handles := [], timers := [], ack := 0, waiting_ack_cv := 1\<rparr>)
   \<and> closing (read_loop wrap_conn [Frame (APDUS 1)])"
proof -
  have a: "ack wrap_conn = 0x7FFE" by (simp add: wrap_conn_def)
  have r: "0 \<le> ack wrap_conn" "ack wrap_conn < 0x8000" by (simp_all add: a)
  have ssns: "ack_ssns (ack wrap_conn) 0 = [0x7FFE, 0x7FFF]"
    unfolding a by (simp add: ack_ssns_def upto_rec1)
  have ssns1: "ack_ssns (ack wrap_conn) 1 = [0x7FFE, 0x7FFF, 0]"
    unfolding a by (simp add: ack_ssns_def upto_rec1)
  have iv0: "in_mod_interval (ack wrap_conn) 0 n \<longleftrightarrow> n = 0x7FFE \<or> n = 0x7FFF" for n
    using set_ack_advance[OF r, of 0] unfolding ssns by auto
  have iv1: "in_mod_interval (ack wrap_conn) 1 n \<longleftrightarrow> n = 0x7FFE \<or> n = 0x7FFF \<or> n = 0" for n
    using set_ack_advance[OF r, of 1] unfolding ssns1 by auto
  have w: "waiting_ack_handles wrap_conn = [(0x7FFE, 0), (0x7FFF, 1)]"
    by (simp add: wrap_conn_def)
  have t: "timers wrap_conn = [\<lparr>timer_handle = 0, timer_delay = 15, timer_callback = on_response_timeout_cb\<rparr>,
                  \<lparr>timer_handle = 1, timer_delay = 15, timer_callback = on_response_timeout_cb\<rparr>]"
    by (simp add: wrap_conn_def)
  have cv: "waiting_ack_cv wrap_conn = 0"
    by (simp add: wrap_conn_def client_conn_def new_connection_def)
  have ok: "set_ack wrap_conn 0 =
       Inr (wrap_conn\<lparr>waiting_ack_handles := [], timers := [], ack := 0, waiting_ack_cv := 1\<rparr>)"
    using set_ack_advance[OF r, of 0] by (simp add: iv0 w t cv)
  have ex: "\<exists>n. in_mod_interval (ack wrap_conn) 1 n \<and> n \<notin> fst ` set (waiting_ack_handles wrap_conn)"
    by (rule exI[of _ 0]) (simp add: iv1 w)
  have r1: "(0::int) \<le> 1" "(1::int) < 0x8000" by simp_all
  have bad: "closing (read_loop wrap_conn [Frame (APDUS 1)])"
    using set_ack_advance[OF r r1] ex by blast
  show ?thesis using r ssns ok bad by simp
qed

text \<open>
  C7.  Ack-advance with the advertised number equal to the current \<open>ack\<close> returns and
  leaves the connection as it was; the only effect is the notification of the condition
  variable.
\<close>

theorem set_ack_idempotent:
  "set_ack s (ack s) = Inr (notify_all s)
   \<and> notify_all s = s\<lparr>waiting_ack_cv := Suc (waiting_ack_cv s)\<rparr>
   \<and> ssn (notify_all s) = ssn s \<and> rsn (notify_all s) = rsn s \<and> ack (notify_all s) = ack s
   \<and> w (notify_all s) = w s \<and> waiting_ack_handles (notify_all s) = waiting_ack_handles s
   \<and> is_enabled (notify_all s) = is_enabled s
   \<and> receive_queue (notify_all s) = receive_queue s \<and> send_queue (notify_all s) = send_queue s
   \<and> wire (notify_all s) = wire s \<and> timers (notify_all s) = timers s
   \<and> supervisory_handle (notify_all s) = supervisory_handle s"
  by (simp add: set_ack_idem) (simp add: notify_all_def)


theorem set_ack_idempotent_witness:
  "set_ack wrap_conn 0x7FFE = Inr (wrap_conn\<lparr>waiting_ack_cv := 1\<rparr>)"
proof -
  have "ack wrap_conn = 0x7FFE" by (simp add: wrap_conn_def)
  moreover have "waiting_ack_cv wrap_conn = 0"
    by (simp add: wrap_conn_def client_conn_def new_connection_def)
  ultimately show ?thesis using set_ack_idempotent[of wrap_conn] by simp
qed

lemma sent2_conn_eq:
  "sent2_conn =
     client_conn\<lparr>wire := [APDUI 0 0 [1], APDUI 1 0 [2]], ssn := 2,
       waiting_ack_handles := [(0, 0), (1, 1)],
       timers := [\<lparr>timer_handle = 0, timer_delay = 15, timer_callback = on_response_timeout_cb\<rparr>,
                  \<lparr>timer_handle = 1, timer_delay = 15, timer_callback = on_response_timeout_cb\<rparr>],
       next_handle := 2\<rparr>"
  by (simp add: sent2_conn_def numeral_2_eq_2 writer_turn_def write_step_def queue_get_def
      wait_window_def emit_data_def write_apdu_def stop_supervisory_timeout_def call_later_def
      client_conn_def new_connection_def fresh_tcp_def Let_def)

lemma set_ack_raises:
  assumes "n \<in> set (ack_ssns (ack s) r)" "n \<notin> fst ` set (waiting_ack_handles s)"
  shows "\<exists>s'. set_ack s r = Inl (Exception ''received ack for unsent sequence number'', s')
               \<and> ack s' = ack s \<and> waiting_ack_cv s' = waiting_ack_cv s"
proof -
  have "\<not> (\<forall>n\<in>set (ack_ssns (ack s) r). n \<in> fst ` set (waiting_ack_handles s))"
    using assms by blast
  then show ?thesis by (simp add: set_ack_char ack_popped_def)
qed

lemma read_loop_set_ack_raises:
  assumes "set_ack s r = Inl (e, s')"
  shows "read_loop s (Frame (APDUS r) # evs) = read_loop_finally s'"
    and "read_loop s (Frame (APDUI n_s r data) # evs) = read_loop_finally s'"
  using assms by (simp_all add: process_apdu_def process_apdus_def process_apdui_def)

text \<open>
  C9.  In a connection whose \<open>waiting_ack\<close> keys are exactly the modular interval
  \<open>[ack, ssn)\<close>, ack-advance with an advertised 15-bit number outside the closed modular
  interval \<open>[ack, ssn]\<close> raises the ack-for-unsent exception, and the read loop that
  received it in an S- or I-frame closes the connection and the receive queue.
\<close>

theorem ack_beyond_window_rejected:
  assumes "\<forall>n. n \<in> fst ` set (waiting_ack_handles s) \<longleftrightarrow> in_mod_interval (ack s) (ssn s) n"
    and "0 \<le> ack s" "ack s < 0x8000" "0 \<le> ssn s" "ssn s < 0x8000" "0 \<le> r" "r < 0x8000"
    and "\<not> in_mod_closed (ack s) (ssn s) r"
  shows "(\<exists>s'. set_ack s r = Inl (Exception ''received ack for unsent sequence number'', s')
              \<and> ack s' = ack s)
    \<and> (\<forall>evs. closing (read_loop s (Frame (APDUS r) # evs))
            \<and> queue_closed (receive_queue (read_loop s (Frame (APDUS r) # evs))))
    \<and> (\<forall>n_s data evs. closing (read_loop s (Frame (APDUI n_s r data) # evs))
            \<and> queue_closed (receive_queue (read_loop s (Frame (APDUI n_s r data) # evs))))"
proof -
  have lt: "(ssn s - ack s) mod 0x8000 < (r - ack s) mod 0x8000"
    using assms(6-8) by (simp add: in_mod_closed_def)
  then have "in_mod_interval (ack s) r (ssn s)"
    using assms(4,5) by (simp add: in_mod_interval_def)
  then have 1: "ssn s \<in> set (ack_ssns (ack s) r)"
    using set_ack_ssns[OF assms(2,3,6,7)] by simp
  have "\<not> in_mod_interval (ack s) (ssn s) (ssn s)"
    by (simp add: in_mod_interval_def)
  then have 2: "ssn s \<notin> fst ` set (waiting_ack_handles s)"
    using assms(1) by simp
  obtain s' where s': "set_ack s r = Inl (Exception ''received ack for unsent sequence number'', s')"
    and a: "ack s' = ack s"
    using set_ack_raises[OF 1 2] by blast
  show ?thesis
    using s' a
    by (simp del: read_loop.simps add: read_loop_set_ack_raises[OF s'] read_loop_finally_closed)
qed

theorem ack_beyond_window_rejected_witness:
  "(\<forall>n. n \<in> fst ` set (waiting_ack_handles sent2_conn)
        \<longleftrightarrow> in_mod_interval (ack sent2_conn) (ssn sent2_conn) n)
   \<and> ack sent2_conn = 0 \<and> ssn sent2_conn = 2 \<and> \<not> in_mod_closed (ack sent2_conn) (ssn sent2_conn) 3
   \<and> closing (read_loop sent2_conn [Frame (APDUS 3)])
   \<and> \<not> closing sent2_conn"
proof -
  have a: "ack sent2_conn = 0" and n: "ssn sent2_conn = 2"
    and wa: "waiting_ack_handles sent2_conn = [(0, 0), (1, 1)]"
    and c: "\<not> closing sent2_conn"
    by (simp_all add: sent2_conn_eq client_conn_def new_connection_def fresh_tcp_def)
  have keys: "\<forall>n. n \<in> fst ` set (waiting_ack_handles sent2_conn)
        \<longleftrightarrow> in_mod_interval (ack sent2_conn) (ssn sent2_conn) n"
    unfolding a n wa
    using set_ack_ssns[of 0 2] by (auto simp: ack_ssns_def upto_rec1)
  have out: "\<not> in_mod_closed (ack sent2_conn) (ssn sent2_conn) 3"
    unfolding a n by (simp add: in_mod_closed_def)
  have "closing (read_loop sent2_conn [Frame (APDUS 3)])"
    using ack_beyond_window_rejected[OF keys _ _ _ _ _ _ out] by (simp add: a n)
  then show ?thesis using keys a n out c by simp
qed

subsection \<open>Claims on the reader\<close>

lemma set_ack_Inr_fields:
  assumes "set_ack s r = Inr s1"
  shows "rsn s1 = rsn s" "w s1 = w s" "wire s1 = wire s" "ssn s1 = ssn s"
    "supervisory_handle s1 = supervisory_handle s" "receive_queue s1 = receive_queue s"
    "send_queue s1 = send_queue s" "next_handle s1 = next_handle s" "ack s1 = r"
    "supervisory_timeout s1 = supervisory_timeout s"
    "receive_window_size s1 = receive_window_size s" "send_window_size s1 = send_window_size s"
    "is_enabled s1 = is_enabled s" "always_enabled s1 = always_enabled s"
    "closing s1 = closing s" "writer s1 = writer s" "reader_done s1 = reader_done s"
    "futures s1 = futures s"
  using assms
  by (auto simp: set_ack_char ack_popped_def notify_all_def split: if_splits)

lemma set_ack_all_present:
  assumes "0 \<le> ack s" "ack s < 0x8000" "0 \<le> r" "r < 0x8000"
    and "\<forall>n. in_mod_interval (ack s) r n \<longrightarrow> n \<in> fst ` set (waiting_ack_handles s)"
  shows "set_ack s r =
           Inr (s\<lparr>waiting_ack_handles :=
                   filter (\<lambda>p. \<not> in_mod_interval (ack s) r (fst p)) (waiting_ack_handles s),
                 timers :=
                   filter (\<lambda>t. \<forall>n. in_mod_interval (ack s) r n \<longrightarrow>
                                 map_of (waiting_ack_handles s) n \<noteq> Some (timer_handle t))
                     (timers s),
                 ack := r,
                 waiting_ack_cv := Suc (waiting_ack_cv s)\<rparr>)"
proof -
  note iv = set_ack_ssns[OF assms(1-4)]
  have "\<forall>n\<in>set (ack_ssns (ack s) r). n \<in> fst ` set (waiting_ack_handles s)"
    using assms(5) iv by blast
  then show ?thesis
    by (simp add: set_ack_char ack_popped_def notify_all_def iv Ball_def)
qed

lemma set_ack_Inl_fields:
  assumes "set_ack s r = Inl (e, s1)"
  shows "rsn s1 = rsn s" "w s1 = w s" "wire s1 = wire s" "ack s1 = ack s"
    "supervisory_handle s1 = supervisory_handle s" "receive_queue s1 = receive_queue s"
    "waiting_ack_cv s1 = waiting_ack_cv s"
  using assms
  by (auto simp: set_ack_char ack_popped_def split: if_splits)


lemma process_apdui_ack_raises:
  assumes "n \<in> set (ack_ssns (ack s) n_r)" "n \<notin> fst ` set (waiting_ack_handles s)"
  shows "(\<exists>s'. process_apdui s n_s n_r data
                  = Inl (Exception ''received ack for unsent sequence number'', s')
               \<and> ack s' = ack s \<and> rsn s' = rsn s \<and> w s' = w s \<and> wire s' = wire s
               \<and> receive_queue s' = receive_queue s
               \<and> waiting_ack_cv s' = waiting_ack_cv s
               \<and> supervisory_handle s' = supervisory_handle s)
        \<and> (\<forall>evs. closing (read_loop s (Frame (APDUI n_s n_r data) # evs)))"
proof -
  obtain s' where s': "set_ack s n_r
      = Inl (Exception ''received ack for unsent sequence number'', s')"
    using set_ack_raises[OF assms] by blast
  have p: "process_apdui s n_s n_r data
      = Inl (Exception ''received ack for unsent sequence number'', s')"
    using s' by (simp add: process_apdui_def)
  have c: "closing (read_loop s (Frame (APDUI n_s n_r data) # evs))" for evs
    by (simp only: read_loop_set_ack_raises(2)[OF s'] read_loop_finally_closed)
  show ?thesis
    using p set_ack_Inl_fields[OF s'] c by blast
qed

lemma process_apdui_gap:
  assumes sa: "set_ack s n_r = Inr acked" and ne: "n_s \<noteq> rsn s"
  shows "process_apdui s n_s n_r data = Inl (Exception ''missing apdu sequence number'', acked)
       \<and> (\<forall>evs. read_loop s (Frame (APDUI n_s n_r data) # evs) = read_loop_finally acked
               \<and> closing (read_loop s (Frame (APDUI n_s n_r data) # evs))
               \<and> queue_closed (receive_queue (read_loop s (Frame (APDUI n_s n_r data) # evs))))"
proof -
  have p: "process_apdui s n_s n_r data = Inl (Exception ''missing apdu sequence number'', acked)"
    using sa ne set_ack_Inr_fields(1)[OF sa] by (simp add: process_apdui_def)
  have r: "read_loop s (Frame (APDUI n_s n_r data) # evs) = read_loop_finally acked" for evs
    by (simp add: process_apdu_def p)
  show ?thesis
    by (simp only: p r read_loop_finally_closed simp_thms)
qed

lemma process_apdui_accepts:
  assumes "\<not> queue_closed (receive_queue s)"
    and sa: "set_ack s n_r = Inr acked" and eq: "n_s = rsn s"
  shows "process_apdui s n_s n_r data
      = Inr (let started =
                   (case supervisory_handle s of
                      Some h \<Rightarrow> acked
                    | None \<Rightarrow>
                        acked\<lparr>timers := timers acked @
                                 [\<lparr>timer_handle = next_handle s,
                                   timer_delay = supervisory_timeout s,
                                   timer_callback = on_supervisory_timeout_cb\<rparr>],
                              next_handle := Suc (next_handle s),
                              supervisory_handle := Some (next_handle s)\<rparr>);
                 received =
                   started\<lparr>rsn := (rsn s + 1) mod 0x8000,
                           receive_queue := (receive_queue s)\<lparr>queue_items :=
                              queue_items (receive_queue s) @ (if data \<noteq> [] then [data] else [])\<rparr>\<rparr>
             in if w s + 1 \<ge> receive_window_size s
                then received\<lparr>wire := wire s @ [APDUS ((rsn s + 1) mod 0x8000)],
                              w := 0,
                              supervisory_handle := None,
                              timers := filter (\<lambda>t. timer_handle t \<noteq>
                                   (case supervisory_handle s of Some h \<Rightarrow> h | None \<Rightarrow> next_handle s))
                                          (timers received)\<rparr>
                else received\<lparr>w := w s + 1\<rparr>)"
proof -
  note f = set_ack_Inr_fields[OF sa]
  show ?thesis
  proof (cases "supervisory_handle s")
    case None
    then show ?thesis
      using sa assms(1) f eq
      by (simp add: process_apdui_def receive_put_def put_nowait_def
          start_supervisory_timeout_def stop_supervisory_timeout_def call_later_def
          cancel_def write_apdu_def Let_def)
  next
    case (Some h)
    then show ?thesis
      using sa assms(1) f eq
      by (simp add: process_apdui_def receive_put_def put_nowait_def
          start_supervisory_timeout_def stop_supervisory_timeout_def call_later_def
          cancel_def write_apdu_def Let_def)
  qed
qed

text \<open>
  C2.  A received I-frame with 15-bit \<open>ack\<close> and \<open>N_R\<close>, with the receive queue open as
  it is while the read loop runs.  Ack-advance with the frame's \<open>N_R\<close> comes first: when
  a sequence number of the modular interval \<open>[ack, N_R)\<close> has no entry in \<open>waiting_ack\<close>,
  the frame raises the ack-for-unsent exception with \<open>rsn\<close>, \<open>w\<close>, the wire and the
  receive queue untouched, and the read loop closes the connection.  Otherwise the entries
  of the interval are removed, their timers cancelled, \<open>ack\<close> is \<open>N_R\<close> and the condition
  variable is notified (the state \<open>acked\<close>); then a frame whose \<open>N_S\<close> is not \<open>rsn\<close>
  raises the missing-sequence-number exception in that state and the read loop closes the
  connection and the receive queue.  A frame with \<open>N_S = rsn\<close> returns: on top of \<open>acked\<close>
  the supervisory timer is armed unless it is armed already, \<open>rsn\<close> advances by one
  modulo \<open>2^15\<close>, the payload is appended to the receive queue iff it is not empty, and
  \<open>w\<close> is incremented; when the incremented \<open>w\<close> reaches \<open>receive_window_size\<close>, the
  frame \<open>S(rsn)\<close> with the new \<open>rsn\<close> is written, \<open>w\<close> is reset and the supervisory timer
  cancelled, and otherwise nothing is written.  The result is given in full, so nothing
  else changes.
\<close>

theorem process_apdui_order:
  assumes "\<not> queue_closed (receive_queue s)"
    and "0 \<le> ack s" "ack s < 0x8000" "0 \<le> n_r" "n_r < 0x8000"
  shows
  "(let acked =
          s\<lparr>waiting_ack_handles :=
              filter (\<lambda>p. \<not> in_mod_interval (ack s) n_r (fst p)) (waiting_ack_handles s),
            timers :=
              filter (\<lambda>t. \<forall>n. in_mod_interval (ack s) n_r n \<longrightarrow>
                            map_of (waiting_ack_handles s) n \<noteq> Some (timer_handle t))
                (timers s),
            ack := n_r,
            waiting_ack_cv := Suc (waiting_ack_cv s)\<rparr>
    in
      ((\<exists>n. in_mod_interval (ack s) n_r n \<and> n \<notin> fst ` set (waiting_ack_handles s)) \<longrightarrow>
          (\<exists>s'. process_apdui s n_s n_r data
                  = Inl (Exception ''received ack for unsent sequence number'', s')
               \<and> ack s' = ack s \<and> rsn s' = rsn s \<and> w s' = w s \<and> wire s' = wire s
               \<and> receive_queue s' = receive_queue s
               \<and> waiting_ack_cv s' = waiting_ack_cv s
               \<and> supervisory_handle s' = supervisory_handle s)
        \<and> (\<forall>evs. closing (read_loop s (Frame (APDUI n_s n_r data) # evs))))
    \<and> ((\<forall>n. in_mod_interval (ack s) n_r n \<longrightarrow> n \<in> fst ` set (waiting_ack_handles s)) \<longrightarrow>
          (n_s \<noteq> rsn s \<longrightarrow>
              process_apdui s n_s n_r data
                = Inl (Exception ''missing apdu sequence number'', acked)
            \<and> (\<forall>evs. read_loop s (Frame (APDUI n_s n_r data) # evs) = read_loop_finally acked
                    \<and> closing (read_loop s (Frame (APDUI n_s n_r data) # evs))
                    \<and> queue_closed (receive_queue (read_loop s (Frame (APDUI n_s n_r data) # evs)))))
        \<and> (n_s = rsn s \<longrightarrow>
              process_apdui s n_s n_r data
                = Inr (let started =
                             (case supervisory_handle s of
                                Some h \<Rightarrow> acked
                              | None \<Rightarrow>
                                  acked\<lparr>timers := timers acked @
                                           [\<lparr>timer_handle = next_handle s,
                                             timer_delay = supervisory_timeout s,
                                             timer_callback = on_supervisory_timeout_cb\<rparr>],
                                        next_handle := Suc (next_handle s),
                                        supervisory_handle := Some (next_handle s)\<rparr>);
                           received =
                             started\<lparr>rsn := (rsn s + 1) mod 0x8000,
                                     receive_queue := (receive_queue s)\<lparr>queue_items :=
                                        queue_items (receive_queue s)
                                          @ (if data \<noteq> [] then [data] else [])\<rparr>\<rparr>
                       in if w s + 1 \<ge> receive_window_size s
                          then received\<lparr>wire := wire s @ [APDUS ((rsn s + 1) mod 0x8000)],
                                        w := 0,
                                        supervisory_handle := None,
                                        timers := filter (\<lambda>t. timer_handle t \<noteq>
                                             (case supervisory_handle s of
                                                Some h \<Rightarrow> h | None \<Rightarrow> next_handle s))
                                                    (timers received)\<rparr>
                          else received\<lparr>w := w s + 1\<rparr>))))"
proof -
  note iv = set_ack_ssns[OF assms(2-5)]
  have A: "(\<exists>s'. process_apdui s n_s n_r data
                  = Inl (Exception ''received ack for unsent sequence number'', s')
               \<and> ack s' = ack s \<and> rsn s' = rsn s \<and> w s' = w s \<and> wire s' = wire s
               \<and> receive_queue s' = receive_queue s
               \<and> waiting_ack_cv s' = waiting_ack_cv s
               \<and> supervisory_handle s' = supervisory_handle s)
        \<and> (\<forall>evs. closing (read_loop s (Frame (APDUI n_s n_r data) # evs)))"
    if "\<exists>n. in_mod_interval (ack s) n_r n \<and> n \<notin> fst ` set (waiting_ack_handles s)"
  proof -
    from that obtain n where n: "in_mod_interval (ack s) n_r n"
        "n \<notin> fst ` set (waiting_ack_handles s)"
      by blast
    have "n \<in> set (ack_ssns (ack s) n_r)" using n(1) by (simp only: iv)
    then show ?thesis using n(2) by (rule process_apdui_ack_raises)
  qed
  note sa = set_ack_all_present[OF assms(2-5)]
  note B = process_apdui_gap[OF sa]
  note C = process_apdui_accepts[OF assms(1) sa, unfolded Let_def]
  show ?thesis
    unfolding Let_def
    apply (rule conjI)
     apply (rule impI)
     apply (erule A)
    apply (rule impI)
    apply (rule conjI)
     apply (rule impI)
     apply (erule (1) B)
    apply (rule impI)
    apply (erule (1) C)
    done
qed

theorem process_apdui_order_witness:
  "\<not> queue_closed (receive_queue sent2_conn) \<and> ack sent2_conn = 0 \<and> rsn sent2_conn = 0
   \<and> waiting_ack_handles sent2_conn = [(0, 0), (1, 1)]
   \<and> process_apdui sent2_conn 0 2 [5]
       = Inr (sent2_conn\<lparr>waiting_ack_handles := [],
               timers := [\<lparr>timer_handle = 2, timer_delay = 10,
                           timer_callback = on_supervisory_timeout_cb\<rparr>],
               ack := 2, waiting_ack_cv := 1, next_handle := 3,
               supervisory_handle := Some 2, rsn := 1,
               receive_queue := \<lparr>queue_items = [[5]], queue_closed = False\<rparr>,
               w := 1\<rparr>)
   \<and> process_apdui sent2_conn 1 2 [5]
       = Inl (Exception ''missing apdu sequence number'',
              sent2_conn\<lparr>waiting_ack_handles := [], timers := [], ack := 2,
                          waiting_ack_cv := 1\<rparr>)
   \<and> closing (read_loop sent2_conn [Frame (APDUI 1 2 [5])])
   \<and> closing (read_loop sent2_conn [Frame (APDUI 0 3 [5])])
   \<and> process_apdui eager_conn 0 0 []
       = Inr (eager_conn\<lparr>waiting_ack_cv := 1, next_handle := 1, rsn := 1,
                wire := [APDUS 1]\<rparr>)"
proof -
  have f: "\<not> queue_closed (receive_queue sent2_conn)" "ack sent2_conn = 0" "rsn sent2_conn = 0"
    "waiting_ack_handles sent2_conn = [(0, 0), (1, 1)]" "w sent2_conn = 0"
    "supervisory_handle sent2_conn = None" "next_handle sent2_conn = 2"
    "receive_window_size sent2_conn = 8" "supervisory_timeout sent2_conn = 10"
    "timers sent2_conn = [\<lparr>timer_handle = 0, timer_delay = 15, timer_callback = on_response_timeout_cb\<rparr>,
                  \<lparr>timer_handle = 1, timer_delay = 15, timer_callback = on_response_timeout_cb\<rparr>]"
    "waiting_ack_cv sent2_conn = 0"
    "receive_queue sent2_conn = \<lparr>queue_items = [], queue_closed = False\<rparr>"
    by (simp_all add: sent2_conn_eq client_conn_def new_connection_def fresh_tcp_def)
  have g: "\<not> queue_closed (receive_queue eager_conn)" "ack eager_conn = 0" "rsn eager_conn = 0"
    "waiting_ack_handles eager_conn = []" "w eager_conn = 0"
    "supervisory_handle eager_conn = None" "next_handle eager_conn = 0"
    "receive_window_size eager_conn = 1" "timers eager_conn = []"
    "waiting_ack_cv eager_conn = 0" "wire eager_conn = []"
    "receive_queue eager_conn = \<lparr>queue_items = [], queue_closed = False\<rparr>"
    by (simp_all add: eager_conn_def new_connection_def fresh_tcp_def)
  have r0: "(0::int) \<le> 0" "(0::int) < 0x8000" by simp_all
  have r2: "(0::int) \<le> 2" "(2::int) < 0x8000" by simp_all
  have r3: "(0::int) \<le> 3" "(3::int) < 0x8000" by simp_all
  have iv2: "in_mod_interval 0 2 n \<longleftrightarrow> n = 0 \<or> n = 1" for n
    using set_ack_ssns[OF r0 r2, of n] by (auto simp: ack_ssns_def upto_rec1)
  have iv3: "in_mod_interval 0 3 n \<longleftrightarrow> n = 0 \<or> n = 1 \<or> n = 2" for n
    using set_ack_ssns[OF r0 r3, of n] by (auto simp: ack_ssns_def upto_rec1)
  have iv0: "\<not> in_mod_interval 0 0 n" for n
    by (simp add: in_mod_interval_def)
  have a: "0 \<le> ack sent2_conn" "ack sent2_conn < 0x8000" by (simp_all add: f)
  have b: "0 \<le> ack eager_conn" "ack eager_conn < 0x8000" by (simp_all add: g)
  have all2: "\<forall>n. in_mod_interval (ack sent2_conn) 2 n
      \<longrightarrow> n \<in> fst ` set (waiting_ack_handles sent2_conn)"
    by (simp add: f iv2)
  have ex3: "\<exists>n. in_mod_interval (ack sent2_conn) 3 n
      \<and> n \<notin> fst ` set (waiting_ack_handles sent2_conn)"
    by (rule exI[of _ 2]) (simp add: f iv3)
  have all0: "\<forall>n. in_mod_interval (ack eager_conn) 0 n
      \<longrightarrow> n \<in> fst ` set (waiting_ack_handles eager_conn)"
    by (simp add: g iv0)
  note t1 = process_apdui_order[OF f(1) a r2, of 0 "[5]", unfolded Let_def]
  note t2 = process_apdui_order[OF f(1) a r2, of 1 "[5]", unfolded Let_def]
  note t3 = process_apdui_order[OF f(1) a r3, of 0 "[5]", unfolded Let_def]
  note t4 = process_apdui_order[OF g(1) b r0, of 0 "[]", unfolded Let_def]
  have 1: "process_apdui sent2_conn 0 2 [5]
       = Inr (sent2_conn\<lparr>waiting_ack_handles := [],
               timers := [\<lparr>timer_handle = 2, timer_delay = 10,
                           timer_callback = on_supervisory_timeout_cb\<rparr>],
               ack := 2, waiting_ack_cv := 1, next_handle := 3,
               supervisory_handle := Some 2, rsn := 1,
               receive_queue := \<lparr>queue_items = [[5]], queue_closed = False\<rparr>,
               w := 1\<rparr>)"
    using t1 all2 by (simp add: f iv2)
  have 2: "process_apdui sent2_conn 1 2 [5]
       = Inl (Exception ''missing apdu sequence number'',
              sent2_conn\<lparr>waiting_ack_handles := [], timers := [], ack := 2,
                          waiting_ack_cv := 1\<rparr>)"
    "closing (read_loop sent2_conn [Frame (APDUI 1 2 [5])])"
    using t2 all2 by (simp_all add: f iv2 read_loop_finally_closed del: read_loop.simps)
  have 3: "closing (read_loop sent2_conn [Frame (APDUI 0 3 [5])])"
    using t3 ex3 by blast
  have 4: "process_apdui eager_conn 0 0 []
       = Inr (eager_conn\<lparr>waiting_ack_cv := 1, next_handle := 1, rsn := 1,
                wire := [APDUS 1]\<rparr>)"
    using t4 all0 by (simp add: g iv0)
  show ?thesis using f(1-4) 1 2 3 4 by (simp only: simp_thms)
qed

subsection \<open>Claims on the enable state and the writer\<close>

lemma fold_cancel_fields:
  "wire (fold cancel hs s) = wire s" "is_enabled (fold cancel hs s) = is_enabled s"
  "waiting_ack_handles (fold cancel hs s) = waiting_ack_handles s"
  "w (fold cancel hs s) = w s" "send_window_size (fold cancel hs s) = send_window_size s"
  "receive_window_size (fold cancel hs s) = receive_window_size s"
  "send_queue (fold cancel hs s) = send_queue s" "futures (fold cancel hs s) = futures s"
  "receive_queue (fold cancel hs s) = receive_queue s"
  "closing (fold cancel hs s) = closing s"
  "supervisory_handle (fold cancel hs s) = supervisory_handle s"
  by (induction hs arbitrary: s; simp add: cancel_def)+

lemma stop_supervisory_timeout_fields:
  "wire (stop_supervisory_timeout s) = wire s"
  "is_enabled (stop_supervisory_timeout s) = is_enabled s"
  "waiting_ack_handles (stop_supervisory_timeout s) = waiting_ack_handles s"
  "w (stop_supervisory_timeout s) = w s"
  "send_window_size (stop_supervisory_timeout s) = send_window_size s"
  "receive_window_size (stop_supervisory_timeout s) = receive_window_size s"
  "send_queue (stop_supervisory_timeout s) = send_queue s"
  "futures (stop_supervisory_timeout s) = futures s"
  "receive_queue (stop_supervisory_timeout s) = receive_queue s"
  "closing (stop_supervisory_timeout s) = closing s"
  "supervisory_handle (stop_supervisory_timeout s) = None"
  by (simp_all add: stop_supervisory_timeout_def cancel_def split: option.splits)

lemma write_loop_finally_fields:
  "wire (write_loop_finally s) = wire s" "is_enabled (write_loop_finally s) = is_enabled s"
  "waiting_ack_handles (write_loop_finally s) = waiting_ack_handles s"
  "w (write_loop_finally s) = w s"
  "send_window_size (write_loop_finally s) = send_window_size s"
  "receive_window_size (write_loop_finally s) = receive_window_size s"
  "receive_queue (write_loop_finally s) = receive_queue s"
  "closing (write_loop_finally s)" "writer (write_loop_finally s) = WriterDone"
  "queue_closed (send_queue (write_loop_finally s))"
  "queue_items (send_queue (write_loop_finally s)) = []"
  "supervisory_handle (write_loop_finally s) = None"
  by (simp_all add: write_loop_finally_def Let_def fold_cancel_fields
      stop_supervisory_timeout_fields close_def queue_close_def)

lemma write_step_disabled:
  assumes "\<not> is_enabled s"
  shows "wire (case write_step s of Inl (e, s') \<Rightarrow> s' | Inr s' \<Rightarrow> s') = wire s
       \<and> is_enabled (case write_step s of Inl (e, s') \<Rightarrow> s' | Inr s' \<Rightarrow> s') = is_enabled s"
  using assms
  by (simp add: write_step_def wait_window_def emit_data_def queue_get_def Let_def
      split: writer_at.splits list.splits send_item.splits)

lemma writer_turn_disabled:
  assumes "\<not> is_enabled s"
  shows "wire (writer_turn s) = wire s" "\<not> is_enabled (writer_turn s)"
proof -
  show "wire (writer_turn s) = wire s"
    using write_step_disabled[OF assms]
    by (auto simp: writer_turn_def write_loop_finally_fields split: sum.splits)
  show "\<not> is_enabled (writer_turn s)"
    using write_step_disabled[OF assms] assms
    by (auto simp: writer_turn_def write_loop_finally_fields split: sum.splits)
qed

lemma send_fields:
  "wire (case send s d of Inl (e, s') \<Rightarrow> s' | Inr s' \<Rightarrow> s') = wire s"
  "is_enabled (case send s d of Inl (e, s') \<Rightarrow> s' | Inr s' \<Rightarrow> s') = is_enabled s"
  by (simp_all add: send_def put_nowait_def)

lemma run_acts_disabled:
  "\<not> is_enabled s \<Longrightarrow> wire (run_acts s acts) = wire s \<and> \<not> is_enabled (run_acts s acts)"
proof (induction s acts rule: run_acts.induct)
  case (1 s)
  then show ?case by simp
next
  case (2 s data acts)
  then show ?case by (simp add: send_fields)
next
  case (3 s acts)
  then show ?case by (simp add: writer_turn_disabled)
qed

lemma send_then_turn_dropped:
  assumes "\<not> is_enabled s" "queue_items (send_queue s) = []" "\<not> queue_closed (send_queue s)"
    "writer s = AwaitItem" "\<not> closing s"
    "int (length (waiting_ack_handles s)) < send_window_size s"
    "ssn s \<notin> fst ` set (waiting_ack_handles s)"
  shows "run_acts s [UserSend d, WriterTurn] = s"
  using assms
  by (simp add: send_def put_nowait_def writer_turn_def write_step_def queue_get_def
      wait_window_def emit_data_def Let_def)

lemma set_ack_quiet:
  "is_enabled (case set_ack s r of Inl (e, s') \<Rightarrow> s' | Inr s' \<Rightarrow> s') = is_enabled s
   \<and> wire (case set_ack s r of Inl (e, s') \<Rightarrow> s' | Inr s' \<Rightarrow> s') = wire s"
  by (simp add: set_ack_char ack_popped_def notify_all_def)

lemma process_apdui_quiet:
  "is_enabled (case process_apdui s n_s n_r data of Inl (e, s') \<Rightarrow> s' | Inr s' \<Rightarrow> s')
     = is_enabled s
   \<and> filter is_apdui (wire (case process_apdui s n_s n_r data of Inl (e, s') \<Rightarrow> s' | Inr s' \<Rightarrow> s'))
     = filter is_apdui (wire s)"
proof (cases "set_ack s n_r")
  case (Inl p)
  then show ?thesis
    using set_ack_quiet[of s n_r] by (auto simp: process_apdui_def split: prod.splits)
next
  case (Inr s1)
  have "is_enabled s1 = is_enabled s" "wire s1 = wire s"
    using set_ack_quiet[of s n_r] Inr by simp_all
  then show ?thesis
    using Inr
    by (auto simp: process_apdui_def Let_def receive_put_def put_nowait_def
        start_supervisory_timeout_def stop_supervisory_timeout_def call_later_def cancel_def
        write_apdu_def split: option.splits if_splits)
qed

lemma process_apduu_quiet:
  assumes "\<not> is_enabled s" "f \<noteq> STARTDT_ACT"
  shows "\<not> is_enabled (process_apduu s f)"
    "filter is_apdui (wire (process_apduu s f)) = filter is_apdui (wire s)"
  using assms
  by (auto simp: process_apduu_def write_apdu_def stop_supervisory_timeout_def cancel_def
      split: option.splits)

lemma read_loop_finally_quiet:
  "is_enabled (read_loop_finally s) = is_enabled s" "wire (read_loop_finally s) = wire s"
  by (simp_all add: read_loop_finally_def close_def Let_def)

lemma reader_turn_quiet:
  assumes "\<not> is_enabled s" "i \<noteq> Frame (APDUU STARTDT_ACT)"
  shows "\<not> is_enabled (reader_turn s i)
       \<and> filter is_apdui (wire (reader_turn s i)) = filter is_apdui (wire s)"
proof (cases i)
  case (ReadError e)
  then show ?thesis using assms by (simp add: reader_turn_def read_loop_finally_quiet)
next
  case (Frame apdu)
  show ?thesis
  proof (cases apdu)
    case (APDUI n_s n_r data)
    then show ?thesis
      using Frame assms(1) process_apdui_quiet[of s n_s n_r data]
      by (auto simp: reader_turn_def process_apdu_def read_loop_finally_quiet split: sum.splits)
  next
    case (APDUS r)
    then show ?thesis
      using Frame assms(1) set_ack_quiet[of s r]
      by (auto simp: reader_turn_def process_apdu_def process_apdus_def read_loop_finally_quiet
          split: sum.splits)
  next
    case (APDUU f)
    then have "f \<noteq> STARTDT_ACT" using Frame assms(2) by simp
    then show ?thesis
      using Frame APDUU assms(1) process_apduu_quiet[OF assms(1), of f]
      by (simp add: reader_turn_def process_apdu_def read_loop_finally_quiet)
  qed
qed

lemma fire_quiet:
  "is_enabled (fire t s) = is_enabled s"
  "filter is_apdui (wire (fire t s)) = filter is_apdui (wire s)"
  by (simp_all add: fire_def cancel_def on_response_timeout_def on_supervisory_timeout_def
      close_def write_apdu_def Let_def split: callback.splits)

lemma apply_event_quiet:
  assumes "\<not> is_enabled s" "ev \<noteq> Inbound (Frame (APDUU STARTDT_ACT))"
  shows "\<not> is_enabled (apply_event s ev)
       \<and> filter is_apdui (wire (apply_event s ev)) = filter is_apdui (wire s)"
proof (cases ev)
  case (Inbound i)
  then show ?thesis using reader_turn_quiet[OF assms(1), of i] assms(2) by (simp add: apply_event_def)
next
  case (AckAdvance r)
  then show ?thesis using set_ack_quiet[of s r] assms(1) by (simp add: apply_event_def)
next
  case WriterTurns
  then show ?thesis using writer_turn_disabled[OF assms(1)] by (simp add: apply_event_def)
next
  case (TimerExpires h)
  then show ?thesis
    using assms(1) by (simp add: apply_event_def fire_quiet split: option.splits)
next
  case (Send data)
  then show ?thesis using assms(1) by (simp add: apply_event_def send_def put_nowait_def)
next
  case (Drain f)
  then show ?thesis
    using assms(1) by (simp add: apply_event_def drain_put_def put_nowait_def Let_def)
next
  case Receive
  then show ?thesis
    using assms(1) by (simp add: apply_event_def receive_def queue_get_def split: list.splits)
next
  case Close
  then show ?thesis using assms(1) by (simp add: apply_event_def close_def)
next
  case TestProbe
  then show ?thesis using assms(1) by (simp add: apply_event_def test_probe_def write_apdu_def)
next
  case TestTimeout
  then show ?thesis using assms(1) by (simp add: apply_event_def test_loop_finally_def close_def)
qed

lemma run_quiet:
  "\<not> is_enabled s \<Longrightarrow> Inbound (Frame (APDUU STARTDT_ACT)) \<notin> set evs \<Longrightarrow>
   \<not> is_enabled (run s evs) \<and> filter is_apdui (wire (run s evs)) = filter is_apdui (wire s)"
  unfolding run_def
proof (induction evs arbitrary: s)
  case Nil
  then show ?case by simp
next
  case (Cons ev evs)
  have ne: "ev \<noteq> Inbound (Frame (APDUU STARTDT_ACT))" using Cons.prems(2) by auto
  have q: "\<not> is_enabled (apply_event s ev)"
    "filter is_apdui (wire (apply_event s ev)) = filter is_apdui (wire s)"
    using apply_event_quiet[OF Cons.prems(1) ne] by simp_all
  have "Inbound (Frame (APDUU STARTDT_ACT)) \<notin> set evs" using Cons.prems(2) by simp
  from Cons.IH[OF q(1) this] show ?case using q(2) by simp
qed

lemma send_then_turn_run:
  assumes "\<not> is_enabled s" "queue_items (send_queue s) = []" "\<not> queue_closed (send_queue s)"
    "writer s = AwaitItem" "\<not> closing s"
    "int (length (waiting_ack_handles s)) < send_window_size s"
    "ssn s \<notin> fst ` set (waiting_ack_handles s)"
  shows "run s [Send d, WriterTurns] = s"
  using send_then_turn_dropped[OF assms, of d] by (simp add: run_def apply_event_def)

text \<open>
  C5, as the claim words it, fails on a restart: the writer tests \<open>is_enabled\<close> when it
  is about to write, not when the payload is sent.  A payload sent to the stopped server
  is still in the send queue when the peer's \<open>STARTDT_ACT\<close> enables the connection again,
  and the writer's next turn puts it on the wire.
\<close>

theorem stopdt_restart_counterexample:
  "\<not> always_enabled server_conn
   \<and> \<not> is_enabled (run server_conn (take 2 restart_events))
   \<and> wire (run server_conn (take 2 restart_events))
       = [APDUU STARTDT_CON, APDUS 0, APDUU STOPDT_CON]
   \<and> queue_items (send_queue (run server_conn (take 3 restart_events))) = [Data [3]]
   \<and> wire (run server_conn restart_events)
       = [APDUU STARTDT_CON, APDUS 0, APDUU STOPDT_CON, APDUU STARTDT_CON, APDUI 0 0 [3]]"
  by code_simp

text \<open>
  C5, amended.  \<open>STOPDT_ACT\<close> changes nothing on an always-enabled connection.  On any
  other connection it writes \<open>S(rsn)\<close> and then \<open>U(STOPDT_CON)\<close>, resets \<open>w\<close>, cancels the
  supervisory timer and disables the connection.  From then on, in every schedule of
  reader, ack-advance, writer, tester, timer and user events in which no \<open>STARTDT_ACT\<close>
  arrives, the connection stays disabled and no I-frame is added to the wire; with user
  sends and writer turns alone the wire does not change at all; and a payload sent to the
  idle writer is taken from the queue and dropped, leaving the connection as it was.
\<close>

theorem stopdt_act_flow:
  "(always_enabled s \<longrightarrow> process_apduu s STOPDT_ACT = s)
   \<and> (\<not> always_enabled s \<longrightarrow>
        wire (process_apduu s STOPDT_ACT) = wire s @ [APDUS (rsn s), APDUU STOPDT_CON]
      \<and> w (process_apduu s STOPDT_ACT) = 0
      \<and> supervisory_handle (process_apduu s STOPDT_ACT) = None
      \<and> timers (process_apduu s STOPDT_ACT)
          = (case supervisory_handle s of
               None \<Rightarrow> timers s
             | Some h \<Rightarrow> filter (\<lambda>t. timer_handle t \<noteq> h) (timers s))
      \<and> \<not> is_enabled (process_apduu s STOPDT_ACT)
      \<and> rsn (process_apduu s STOPDT_ACT) = rsn s
      \<and> (\<forall>evs. Inbound (Frame (APDUU STARTDT_ACT)) \<notin> set evs \<longrightarrow>
             \<not> is_enabled (run (process_apduu s STOPDT_ACT) evs)
           \<and> filter is_apdui (wire (run (process_apduu s STOPDT_ACT) evs))
               = filter is_apdui (wire s))
      \<and> (\<forall>acts. wire (run_acts (process_apduu s STOPDT_ACT) acts)
                  = wire (process_apduu s STOPDT_ACT))
      \<and> (queue_items (send_queue s) = [] \<and> \<not> queue_closed (send_queue s)
           \<and> writer s = AwaitItem \<and> \<not> closing s
           \<and> int (length (waiting_ack_handles s)) < send_window_size s
           \<and> ssn s \<notin> fst ` set (waiting_ack_handles s) \<longrightarrow>
         (\<forall>data. run (process_apduu s STOPDT_ACT) [Send data, WriterTurns]
                  = process_apduu s STOPDT_ACT)))"
proof -
  let ?t = "process_apduu s STOPDT_ACT"
  have A: "always_enabled s \<Longrightarrow> ?t = s" by (simp add: process_apduu_def)
  have B: "wire ?t = wire s @ [APDUS (rsn s), APDUU STOPDT_CON]" "w ?t = 0"
      "supervisory_handle ?t = None"
      "timers ?t = (case supervisory_handle s of
               None \<Rightarrow> timers s
             | Some h \<Rightarrow> filter (\<lambda>t. timer_handle t \<noteq> h) (timers s))"
      "\<not> is_enabled ?t" "rsn ?t = rsn s"
      "send_queue ?t = send_queue s" "writer ?t = writer s" "closing ?t = closing s"
      "waiting_ack_handles ?t = waiting_ack_handles s" "send_window_size ?t = send_window_size s"
      "ssn ?t = ssn s"
    if "\<not> always_enabled s"
    using that
    by (simp_all add: process_apduu_def write_apdu_def stop_supervisory_timeout_def cancel_def
        split: option.splits)
  have R: "\<not> is_enabled (run ?t evs)
           \<and> filter is_apdui (wire (run ?t evs)) = filter is_apdui (wire s)"
    if "\<not> always_enabled s" "Inbound (Frame (APDUU STARTDT_ACT)) \<notin> set evs" for evs
    using run_quiet[OF B(5)[OF that(1)] that(2)] B(1)[OF that(1)] by simp
  have C: "wire (run_acts ?t acts) = wire ?t" if "\<not> always_enabled s" for acts
    using run_acts_disabled[OF B(5)[OF that]] by simp
  have D: "run ?t [Send data, WriterTurns] = ?t"
    if "\<not> always_enabled s" "queue_items (send_queue s) = []" "\<not> queue_closed (send_queue s)"
       "writer s = AwaitItem" "\<not> closing s"
       "int (length (waiting_ack_handles s)) < send_window_size s"
       "ssn s \<notin> fst ` set (waiting_ack_handles s)" for data
    by (rule send_then_turn_run) (use that B[OF that(1)] in simp_all)
  show ?thesis using A B(1-6) R C D by blast
qed

lemma started_conn_eq:
  "started_conn = server_conn\<lparr>wire := [APDUU STARTDT_CON], is_enabled := True\<rparr>"
  by (simp add: started_conn_def process_apduu_def write_apdu_def server_conn_def
      new_connection_def fresh_tcp_def)

theorem stopdt_act_flow_witness:
  "always_enabled client_conn \<and> process_apduu client_conn STOPDT_ACT = client_conn
   \<and> \<not> always_enabled started_conn \<and> is_enabled started_conn
   \<and> wire (process_apduu started_conn STOPDT_ACT)
        = [APDUU STARTDT_CON, APDUS 0, APDUU STOPDT_CON]
   \<and> \<not> is_enabled (process_apduu started_conn STOPDT_ACT)
   \<and> Inbound (Frame (APDUU STARTDT_ACT))
        \<notin> set [Send [1], WriterTurns, Inbound (Frame (APDUI 0 0 [7])), TimerExpires 0,
                 TestProbe, Send [2], WriterTurns]
   \<and> \<not> is_enabled (run (process_apduu started_conn STOPDT_ACT)
          [Send [1], WriterTurns, Inbound (Frame (APDUI 0 0 [7])), TimerExpires 0,
           TestProbe, Send [2], WriterTurns])
   \<and> filter is_apdui (wire (run (process_apduu started_conn STOPDT_ACT)
          [Send [1], WriterTurns, Inbound (Frame (APDUI 0 0 [7])), TimerExpires 0,
           TestProbe, Send [2], WriterTurns])) = []
   \<and> wire (run (process_apduu started_conn STOPDT_ACT)
          [Send [1], WriterTurns, Inbound (Frame (APDUI 0 0 [7])), TimerExpires 0,
           TestProbe, Send [2], WriterTurns])
        = [APDUU STARTDT_CON, APDUS 0, APDUU STOPDT_CON, APDUS 1, APDUU TESTFR_ACT]
   \<and> wire (run_acts (process_apduu started_conn STOPDT_ACT) [UserSend [1], WriterTurn, WriterTurn])
        = [APDUU STARTDT_CON, APDUS 0, APDUU STOPDT_CON]
   \<and> run (process_apduu started_conn STOPDT_ACT) [Send [1], WriterTurns]
        = process_apduu started_conn STOPDT_ACT"
proof -
  let ?evs = "[Send [1], WriterTurns, Inbound (Frame (APDUI 0 0 [7])), TimerExpires 0,
           TestProbe, Send [2], WriterTurns]"
  have c: "always_enabled client_conn"
    by (simp add: client_conn_def new_connection_def)
  have f: "\<not> always_enabled started_conn" "is_enabled started_conn"
    "wire started_conn = [APDUU STARTDT_CON]" "rsn started_conn = 0"
    "queue_items (send_queue started_conn) = []" "\<not> queue_closed (send_queue started_conn)"
    "writer started_conn = AwaitItem" "\<not> closing started_conn"
    "waiting_ack_handles started_conn = []" "send_window_size started_conn = 12"
    by (simp_all add: started_conn_eq server_conn_def new_connection_def fresh_tcp_def)
  have n: "Inbound (Frame (APDUU STARTDT_ACT)) \<notin> set ?evs" by simp
  note th = stopdt_act_flow[of started_conn]
  have 1: "wire (process_apduu started_conn STOPDT_ACT)
        = [APDUU STARTDT_CON, APDUS 0, APDUU STOPDT_CON]"
    using th f by simp
  have 2: "\<not> is_enabled (process_apduu started_conn STOPDT_ACT)"
    using th f by simp
  have 3: "\<not> is_enabled (run (process_apduu started_conn STOPDT_ACT) ?evs)
    \<and> filter is_apdui (wire (run (process_apduu started_conn STOPDT_ACT) ?evs))
        = filter is_apdui (wire started_conn)"
    using th f(1) n by blast
  have 4: "wire (run_acts (process_apduu started_conn STOPDT_ACT) [UserSend [1], WriterTurn, WriterTurn])
        = [APDUU STARTDT_CON, APDUS 0, APDUU STOPDT_CON]"
    using th f(1) 1 by (simp del: run_acts.simps)
  have 5: "run (process_apduu started_conn STOPDT_ACT) [Send [1], WriterTurns]
        = process_apduu started_conn STOPDT_ACT"
    using th f by simp
  have 6: "wire (run (process_apduu started_conn STOPDT_ACT) ?evs)
        = [APDUU STARTDT_CON, APDUS 0, APDUU STOPDT_CON, APDUS 1, APDUU TESTFR_ACT]"
    by code_simp
  show ?thesis
    using stopdt_act_flow[of client_conn] c f(1,2) n 1 2 3 4 5 6 by (simp add: f(3))
qed

subsection \<open>Claim on the client handshake\<close>

lemma wait_startdt_con_passes:
  "\<forall>ev\<in>set pre. passed_over ev \<Longrightarrow>
   wait_startdt_con conn (pre @ rest)
     = wait_startdt_con (conn\<lparr>tcp_written := tcp_written conn @ test_replies pre\<rparr>) rest"
proof (induction pre arbitrary: conn)
  case Nil
  then show ?case by (simp add: test_replies_def)
next
  case (Cons ev pre)
  then have IH: "\<And>c. wait_startdt_con c (pre @ rest)
     = wait_startdt_con (c\<lparr>tcp_written := tcp_written c @ test_replies pre\<rparr>) rest"
    by simp
  from Cons.prems have p: "passed_over ev" by simp
  show ?case
  proof (cases ev)
    case (ReadError e)
    then show ?thesis using p by simp
  next
    case (Frame apdu)
    show ?thesis
    proof (cases apdu)
      case (APDUI a b c)
      then show ?thesis using Frame IH by (simp add: test_replies_def)
    next
      case (APDUS a)
      then show ?thesis using Frame IH by (simp add: test_replies_def)
    next
      case (APDUU f)
      then show ?thesis using Frame IH p by (cases f) (simp_all add: test_replies_def)
    qed
  qed
qed

lemma arrived_within_early:
  assumes "\<forall>p\<in>set pre. fst p < t1"
  shows "arrived_within t1 pre = map snd pre"
    and "tc < t1 \<Longrightarrow> arrived_within t1 (pre @ (tc, ev) # rest)
                     = map snd pre @ ev # arrived_within t1 rest"
    and "t1 \<le> late \<Longrightarrow> arrived_within t1 (pre @ (late, ev) # rest) = map snd pre"
proof -
  have tw: "takeWhile (\<lambda>p. fst p < t1) (pre @ ys) = pre @ takeWhile (\<lambda>p. fst p < t1) ys" for ys
    using assms by (intro takeWhile_append2) auto
  have "takeWhile (\<lambda>p. fst p < t1) pre = pre"
    using assms by (induction pre) auto
  then show "arrived_within t1 pre = map snd pre"
    unfolding arrived_within_def by (rule arg_cong)
  show "tc < t1 \<Longrightarrow> arrived_within t1 (pre @ (tc, ev) # rest)
                     = map snd pre @ ev # arrived_within t1 rest"
    by (simp add: arrived_within_def tw)
  show "t1 \<le> late \<Longrightarrow> arrived_within t1 (pre @ (late, ev) # rest) = map snd pre"
    by (simp add: arrived_within_def tw)
qed

text \<open>
  C6.  \<^verbatim>\<open>connect\<close> writes \<open>U(STARTDT_ACT)\<close> first and then waits, bounded by the
  response timeout \<open>t1\<close>.  Over a run of inbound frames that arrive before \<open>t1\<close> and
  none of which is \<open>U(STARTDT_CON)\<close>, it answers each \<open>U(TESTFR_ACT)\<close> with
  \<open>U(TESTFR_CON)\<close> and does nothing else, whatever S-, I- and other U-frames the run
  holds.  When \<open>U(STARTDT_CON)\<close> follows before \<open>t1\<close>, the result is a connection with
  \<open>always_enabled\<close> and \<open>is_enabled\<close> true.  When nothing follows, or the next event
  arrives at \<open>t1\<close> or later (be it \<open>U(STARTDT_CON)\<close> itself), the timeout is raised; when
  the read raises before \<open>t1\<close>, its exception is raised; in both cases the TCP stream is
  closed first.
\<close>

theorem connect_handshake:
  "(\<forall>p\<in>set pre. fst p < t1 \<and> passed_over (snd p)) \<longrightarrow>
     (tc < t1 \<longrightarrow>
        connect conn (pre @ (tc, Frame (APDUU STARTDT_CON)) # rest) t1 t2 t3 k w_max
          = Inr (new_connection
                  (conn\<lparr>tcp_written :=
                      tcp_written conn @ [APDUU STARTDT_ACT] @ test_replies (map snd pre)\<rparr>)
                  True t1 t2 t3 k w_max))
   \<and> always_enabled (new_connection
               (conn\<lparr>tcp_written :=
                   tcp_written conn @ [APDUU STARTDT_ACT] @ test_replies (map snd pre)\<rparr>)
               True t1 t2 t3 k w_max)
   \<and> is_enabled (new_connection
               (conn\<lparr>tcp_written :=
                   tcp_written conn @ [APDUU STARTDT_ACT] @ test_replies (map snd pre)\<rparr>)
               True t1 t2 t3 k w_max)
   \<and> wire (new_connection
               (conn\<lparr>tcp_written :=
                   tcp_written conn @ [APDUU STARTDT_ACT] @ test_replies (map snd pre)\<rparr>)
               True t1 t2 t3 k w_max)
       = tcp_written conn @ [APDUU STARTDT_ACT] @ test_replies (map snd pre)
   \<and> connect conn pre t1 t2 t3 k w_max
       = Inl (TimeoutError,
              conn\<lparr>tcp_written :=
                     tcp_written conn @ [APDUU STARTDT_ACT] @ test_replies (map snd pre),
                   tcp_closed := True\<rparr>)
   \<and> (\<forall>late ev. t1 \<le> late \<longrightarrow>
         connect conn (pre @ (late, ev) # rest) t1 t2 t3 k w_max
           = Inl (TimeoutError,
                  conn\<lparr>tcp_written :=
                         tcp_written conn @ [APDUU STARTDT_ACT] @ test_replies (map snd pre),
                       tcp_closed := True\<rparr>))
   \<and> (\<forall>e. tc < t1 \<longrightarrow>
         connect conn (pre @ (tc, ReadError e) # rest) t1 t2 t3 k w_max
           = Inl (e,
                  conn\<lparr>tcp_written :=
                         tcp_written conn @ [APDUU STARTDT_ACT] @ test_replies (map snd pre),
                       tcp_closed := True\<rparr>))"
proof
  assume p: "\<forall>p\<in>set pre. fst p < t1 \<and> passed_over (snd p)"
  then have early: "\<forall>p\<in>set pre. fst p < t1" and po: "\<forall>ev\<in>set (map snd pre). passed_over ev"
    by auto
  note aw = arrived_within_early[OF early]
  note ps = wait_startdt_con_passes[OF po]
  have 1: "connect conn (pre @ (tc, Frame (APDUU STARTDT_CON)) # rest) t1 t2 t3 k w_max
          = Inr (new_connection
                  (conn\<lparr>tcp_written :=
                      tcp_written conn @ [APDUU STARTDT_ACT] @ test_replies (map snd pre)\<rparr>)
                  True t1 t2 t3 k w_max)" if "tc < t1"
    by (simp add: connect_def aw(2)[OF that] ps)
  have to: "wait_startdt_con (conn\<lparr>tcp_written := tcp_written conn @ [APDUU STARTDT_ACT]\<rparr>)
              (map snd pre)
      = Inl (TimeoutError,
             conn\<lparr>tcp_written :=
                    tcp_written conn @ [APDUU STARTDT_ACT] @ test_replies (map snd pre)\<rparr>)"
    using ps[of _ "[]"] by simp
  have 2: "connect conn pre t1 t2 t3 k w_max
       = Inl (TimeoutError,
              conn\<lparr>tcp_written :=
                     tcp_written conn @ [APDUU STARTDT_ACT] @ test_replies (map snd pre),
                   tcp_closed := True\<rparr>)"
    by (simp add: connect_def aw(1) to)
  have 3: "connect conn (pre @ (late, ev) # rest) t1 t2 t3 k w_max
           = Inl (TimeoutError,
                  conn\<lparr>tcp_written :=
                         tcp_written conn @ [APDUU STARTDT_ACT] @ test_replies (map snd pre),
                       tcp_closed := True\<rparr>)" if "t1 \<le> late" for late ev
    by (simp add: connect_def aw(3)[OF that] to)
  have 4: "connect conn (pre @ (tc, ReadError e) # rest) t1 t2 t3 k w_max
           = Inl (e,
                  conn\<lparr>tcp_written :=
                         tcp_written conn @ [APDUU STARTDT_ACT] @ test_replies (map snd pre),
                       tcp_closed := True\<rparr>)" if "tc < t1" for e
    by (simp add: connect_def aw(2)[OF that] ps)
  have 5: "always_enabled (new_connection c True t1 t2 t3 k w_max)"
    "is_enabled (new_connection c True t1 t2 t3 k w_max)"
    "wire (new_connection c True t1 t2 t3 k w_max) = tcp_written c" for c
    by (simp_all add: new_connection_def)
  show "(tc < t1 \<longrightarrow>
        connect conn (pre @ (tc, Frame (APDUU STARTDT_CON)) # rest) t1 t2 t3 k w_max
          = Inr (new_connection
                  (conn\<lparr>tcp_written :=
                      tcp_written conn @ [APDUU STARTDT_ACT] @ test_replies (map snd pre)\<rparr>)
                  True t1 t2 t3 k w_max))
   \<and> always_enabled (new_connection
               (conn\<lparr>tcp_written :=
                   tcp_written conn @ [APDUU STARTDT_ACT] @ test_replies (map snd pre)\<rparr>)
               True t1 t2 t3 k w_max)
   \<and> is_enabled (new_connection
               (conn\<lparr>tcp_written :=
                   tcp_written conn @ [APDUU STARTDT_ACT] @ test_replies (map snd pre)\<rparr>)
               True t1 t2 t3 k w_max)
   \<and> wire (new_connection
               (conn\<lparr>tcp_written :=
                   tcp_written conn @ [APDUU STARTDT_ACT] @ test_replies (map snd pre)\<rparr>)
               True t1 t2 t3 k w_max)
       = tcp_written conn @ [APDUU STARTDT_ACT] @ test_replies (map snd pre)
   \<and> connect conn pre t1 t2 t3 k w_max
       = Inl (TimeoutError,
              conn\<lparr>tcp_written :=
                     tcp_written conn @ [APDUU STARTDT_ACT] @ test_replies (map snd pre),
                   tcp_closed := True\<rparr>)
   \<and> (\<forall>late ev. t1 \<le> late \<longrightarrow>
         connect conn (pre @ (late, ev) # rest) t1 t2 t3 k w_max
           = Inl (TimeoutError,
                  conn\<lparr>tcp_written :=
                         tcp_written conn @ [APDUU STARTDT_ACT] @ test_replies (map snd pre),
                       tcp_closed := True\<rparr>))
   \<and> (\<forall>e. tc < t1 \<longrightarrow>
         connect conn (pre @ (tc, ReadError e) # rest) t1 t2 t3 k w_max
           = Inl (e,
                  conn\<lparr>tcp_written :=
                         tcp_written conn @ [APDUU STARTDT_ACT] @ test_replies (map snd pre),
                       tcp_closed := True\<rparr>))"
    using 1 2 3 4 by (simp add: 5)
qed

theorem connect_handshake_witness:
  "fst (1::real, Frame (APDUS 0)) < 15 \<and> passed_over (Frame (APDUS 0))
   \<and> passed_over (Frame (APDUU TESTFR_ACT)) \<and> passed_over (Frame (APDUI 0 0 [1]))
   \<and> passed_over (Frame (APDUU STOPDT_CON))
   \<and> (\<exists>c. connect fresh_tcp (early_events @ [(5, Frame (APDUU STARTDT_CON))]) 15 10 20 12 8
            = Inr c
          \<and> wire c = [APDUU STARTDT_ACT, APDUU TESTFR_CON]
          \<and> always_enabled c \<and> is_enabled c \<and> \<not> closing c
          \<and> response_timeout c = 15
          \<and> queue_items (receive_queue c) = [])
   \<and> connect fresh_tcp (early_events @ [(15, Frame (APDUU STARTDT_CON))]) 15 10 20 12 8
       = Inl (TimeoutError,
              \<lparr>tcp_written = [APDUU STARTDT_ACT, APDUU TESTFR_CON], tcp_closed = True\<rparr>)
   \<and> (\<exists>c. connect fresh_tcp (early_events @ [(15, Frame (APDUU STARTDT_CON))]) 20 10 20 12 8
            = Inr c)
   \<and> connect fresh_tcp early_events 15 10 20 12 8
       = Inl (TimeoutError,
              \<lparr>tcp_written = [APDUU STARTDT_ACT, APDUU TESTFR_CON], tcp_closed = True\<rparr>)
   \<and> connect fresh_tcp (early_events @ [(5, ReadError ConnectionError)]) 15 10 20 12 8
       = Inl (ConnectionError,
              \<lparr>tcp_written = [APDUU STARTDT_ACT, APDUU TESTFR_CON], tcp_closed = True\<rparr>)"
proof -
  have p15: "\<forall>p\<in>set early_events. fst p < 15 \<and> passed_over (snd p)"
    by (simp add: early_events_def)
  have p20: "\<forall>p\<in>set early_events. fst p < 20 \<and> passed_over (snd p)"
    by (simp add: early_events_def)
  have r: "test_replies (map snd early_events) = [APDUU TESTFR_CON]"
    by (simp add: test_replies_def early_events_def)
  note a = connect_handshake[of early_events 15 5 fresh_tcp "[]" 10 20 12 8]
  note b = connect_handshake[of early_events 20 15 fresh_tcp "[]" 10 20 12 8]
  have 1: "connect fresh_tcp (early_events @ [(5, Frame (APDUU STARTDT_CON))]) 15 10 20 12 8
      = Inr (new_connection
              (fresh_tcp\<lparr>tcp_written := tcp_written fresh_tcp @ [APDUU STARTDT_ACT]
                  @ test_replies (map snd early_events)\<rparr>) True 15 10 20 12 8)"
    using a p15 by simp
  have 2: "connect fresh_tcp (early_events @ [(15, Frame (APDUU STARTDT_CON))]) 15 10 20 12 8
       = Inl (TimeoutError,
              \<lparr>tcp_written = [APDUU STARTDT_ACT, APDUU TESTFR_CON], tcp_closed = True\<rparr>)"
    using a p15 by (simp add: r fresh_tcp_def)
  have 3: "connect fresh_tcp (early_events @ [(15, Frame (APDUU STARTDT_CON))]) 20 10 20 12 8
      = Inr (new_connection
              (fresh_tcp\<lparr>tcp_written := tcp_written fresh_tcp @ [APDUU STARTDT_ACT]
                  @ test_replies (map snd early_events)\<rparr>) True 20 10 20 12 8)"
    using b p20 by simp
  have 4: "connect fresh_tcp early_events 15 10 20 12 8
       = Inl (TimeoutError,
              \<lparr>tcp_written = [APDUU STARTDT_ACT, APDUU TESTFR_CON], tcp_closed = True\<rparr>)"
    using a p15 by (simp add: r fresh_tcp_def)
  have 5: "connect fresh_tcp (early_events @ [(5, ReadError ConnectionError)]) 15 10 20 12 8
       = Inl (ConnectionError,
              \<lparr>tcp_written = [APDUU STARTDT_ACT, APDUU TESTFR_CON], tcp_closed = True\<rparr>)"
    using a p15 by (simp add: r fresh_tcp_def)
  have 0: "fst (1::real, Frame (APDUS 0)) < 15 \<and> passed_over (Frame (APDUS 0))
   \<and> passed_over (Frame (APDUU TESTFR_ACT)) \<and> passed_over (Frame (APDUI 0 0 [1]))
   \<and> passed_over (Frame (APDUU STOPDT_CON))"
    by simp
  have 6: "\<exists>c. connect fresh_tcp (early_events @ [(5, Frame (APDUU STARTDT_CON))]) 15 10 20 12 8
            = Inr c
          \<and> wire c = [APDUU STARTDT_ACT, APDUU TESTFR_CON]
          \<and> always_enabled c \<and> is_enabled c \<and> \<not> closing c
          \<and> response_timeout c = 15
          \<and> queue_items (receive_queue c) = []"
    unfolding 1 by (simp add: r fresh_tcp_def new_connection_def)
  have 7: "\<exists>c. connect fresh_tcp (early_events @ [(15, Frame (APDUU STARTDT_CON))]) 20 10 20 12 8
            = Inr c"
    unfolding 3 by simp
  show ?thesis
    using 0 2 4 5 6 7 by blast
qed

subsection \<open>Claims on the closed connection\<close>

lemma receive_calls_closed:
  assumes "queue_closed (receive_queue s)"
  shows "receive_calls (length (queue_items (receive_queue s)) + n) s
           = map Returned (queue_items (receive_queue s)) @ replicate n (Raised ConnectionError)"
  using assms
proof (induction "queue_items (receive_queue s)" arbitrary: s)
  case Nil
  have "receive_calls n s = replicate n (Raised ConnectionError)"
    using Nil by (induction n) (simp_all add: receive_def queue_get_def)
  then show ?case using Nil(1)[symmetric] by simp
next
  case (Cons x xs)
  let ?s' = "s\<lparr>receive_queue := (receive_queue s)\<lparr>queue_items := xs\<rparr>\<rparr>"
  have r: "receive s = Returned (x, ?s')"
    using Cons(2)[symmetric] by (simp add: receive_def queue_get_def)
  have "receive_calls (length xs + n) ?s'
          = map Returned xs @ replicate n (Raised ConnectionError)"
    using Cons(1)[of ?s'] Cons(3) by simp
  then show ?case using Cons(2)[symmetric] r by simp
qed

text \<open>
  C8.  After the \<^verbatim>\<open>finally\<close> block of the write loop, \<^verbatim>\<open>send\<close> raises
  \<open>ConnectionError\<close> and leaves the connection, and so its send queue, as it is.  After
  the \<^verbatim>\<open>finally\<close> block of the read loop, successive \<^verbatim>\<open>receive\<close> calls return the
  payloads that were in the receive queue, in their order, and every later call raises
  \<open>ConnectionError\<close>.  Both hold for every connection whose queue is closed.
\<close>

theorem closed_send_receive:
  "send (write_loop_finally s) data = Inl (ConnectionError, write_loop_finally s)
   \<and> (\<forall>n. receive_calls (length (queue_items (receive_queue s)) + n) (read_loop_finally s)
            = map Returned (queue_items (receive_queue s)) @ replicate n (Raised ConnectionError))
   \<and> (\<forall>t. queue_closed (send_queue t) \<longrightarrow> send t data = Inl (ConnectionError, t))
   \<and> (\<forall>t n. queue_closed (receive_queue t) \<longrightarrow>
         receive_calls (length (queue_items (receive_queue t)) + n) t
            = map Returned (queue_items (receive_queue t)) @ replicate n (Raised ConnectionError))"
proof -
  have c: "send t data = Inl (ConnectionError, t)" if "queue_closed (send_queue t)" for t
    using that by (simp add: send_def put_nowait_def)
  have 1: "send (write_loop_finally s) data = Inl (ConnectionError, write_loop_finally s)"
    by (rule c) (simp add: write_loop_finally_fields)
  have q: "queue_closed (receive_queue (read_loop_finally s))"
    "queue_items (receive_queue (read_loop_finally s)) = queue_items (receive_queue s)"
    by (simp_all add: read_loop_finally_def close_def queue_close_def Let_def)
  have 2: "receive_calls (length (queue_items (receive_queue s)) + n) (read_loop_finally s)
            = map Returned (queue_items (receive_queue s)) @ replicate n (Raised ConnectionError)"
    for n
    using receive_calls_closed[OF q(1), of n] by (simp add: q(2))
  show ?thesis using 1 2 c receive_calls_closed by blast
qed

lemma ended_conn_queue:
  "receive_queue ended_conn = \<lparr>queue_items = [[1], [2]], queue_closed = True\<rparr>"
  "closing ended_conn"
  by (simp_all add: ended_conn_def started_conn_eq server_conn_def new_connection_def fresh_tcp_def
      process_apdu_def process_apdui_def set_ack_def ack_ssns_def notify_all_def
      start_supervisory_timeout_def call_later_def receive_put_def put_nowait_def
      read_loop_finally_def close_def queue_close_def Let_def)

theorem closed_send_receive_witness:
  "queue_closed (receive_queue ended_conn)
   \<and> receive_calls 4 ended_conn
       = [Returned [1], Returned [2], Raised ConnectionError, Raised ConnectionError]
   \<and> queue_closed (send_queue (write_loop_finally ended_conn))
   \<and> send (write_loop_finally ended_conn) [9] = Inl (ConnectionError, write_loop_finally ended_conn)
   \<and> queue_items (send_queue (write_loop_finally ended_conn)) = []"
proof -
  have q: "queue_closed (receive_queue ended_conn)"
    "queue_items (receive_queue ended_conn) = [[1], [2]]"
    by (simp_all add: ended_conn_queue)
  have "receive_calls (length (queue_items (receive_queue ended_conn)) + 2) ended_conn
      = map Returned (queue_items (receive_queue ended_conn)) @ replicate 2 (Raised ConnectionError)"
    using closed_send_receive[of ended_conn "[9]"] q(1) by blast
  moreover have "length (queue_items (receive_queue ended_conn)) + 2 = 4"
    by (simp add: q(2))
  moreover have "replicate 2 (Raised ConnectionError :: bytes awaited)
      = [Raised ConnectionError, Raised ConnectionError]"
    by (simp add: numeral_2_eq_2)
  ultimately have 1: "receive_calls 4 ended_conn
       = [Returned [1], Returned [2], Raised ConnectionError, Raised ConnectionError]"
    by (simp only: q(2) list.map append.simps)
  have 2: "send (write_loop_finally ended_conn) [9] = Inl (ConnectionError, write_loop_finally ended_conn)"
    using closed_send_receive[of ended_conn "[9]"] by blast
  show ?thesis using q(1) 1 2 by (simp add: write_loop_finally_fields)
qed

lemma fail_pending_char:
  "fail_pending xs fs f
     = (if Future f \<in> set xs \<and> fs f = Pending then Failed ConnectionError else fs f)"
proof (induction xs fs rule: fail_pending.induct)
  case (1 fs)
  then show ?case by simp
next
  case (2 asdu xs fs)
  then show ?case by simp
next
  case (3 g xs fs)
  then show ?case by auto
qed

lemma fail_pending_filter:
  "fail_pending (filter (\<lambda>x. \<forall>d. x \<noteq> Data d) xs) fs = fail_pending xs fs"
  by (induction xs fs rule: fail_pending.induct) auto

lemma fail_pending_append_Data: "fail_pending (xs @ [Data d]) fs = fail_pending xs fs"
  by (induction xs fs rule: fail_pending.induct) auto

lemma write_loop_finally_futures:
  "futures (write_loop_finally s) = fail_pending (queue_items (send_queue s)) (futures s)"
  by (simp add: write_loop_finally_def Let_def fold_cancel_fields
      stop_supervisory_timeout_fields close_def queue_close_def)

lemma fold_cancel_eq:
  "fold cancel hs s = s\<lparr>timers := filter (\<lambda>t. timer_handle t \<notin> set hs) (timers s)\<rparr>"
proof (induction hs arbitrary: s)
  case Nil
  then show ?case by simp
next
  case (Cons h hs)
  have F: "filter (\<lambda>t. timer_handle t \<notin> set hs) (filter (\<lambda>t. timer_handle t \<noteq> h) (timers s))
      = filter (\<lambda>t. timer_handle t \<notin> set (h # hs)) (timers s)"
    by (auto intro: filter_cong)
  have "fold cancel (h # hs) s = fold cancel hs (cancel h s)" by simp
  also have "\<dots> = (cancel h s)\<lparr>timers :=
      filter (\<lambda>t. timer_handle t \<notin> set hs) (timers (cancel h s))\<rparr>"
    by (rule Cons.IH)
  also have "\<dots> = s\<lparr>timers := filter (\<lambda>t. timer_handle t \<notin> set hs)
      (filter (\<lambda>t. timer_handle t \<noteq> h) (timers s))\<rparr>"
    by (simp add: cancel_def del: filter_filter)
  finally show ?case unfolding F .
qed

lemma write_loop_finally_queue_irrelevant:
  assumes "fail_pending xs (futures s) = fail_pending (queue_items (send_queue s)) (futures s)"
  shows "write_loop_finally (s\<lparr>send_queue := (send_queue s)\<lparr>queue_items := xs\<rparr>\<rparr>)
       = write_loop_finally s"
  using assms
  by (simp add: write_loop_finally_def Let_def close_def queue_close_def fold_cancel_eq
      stop_supervisory_timeout_def cancel_def split: option.splits)

text \<open>
  C10.  The writer task of a closing connection runs the \<^verbatim>\<open>finally\<close> block of the write
  loop.  The block fails with \<open>ConnectionError\<close> exactly the futures that are in the send
  queue and pending, empties and closes the queue and writes no frame.  A payload in the
  queue has no effect on the outcome: the block ends in the same state with the payloads
  taken out of the queue beforehand, and in the same state whether or not a \<^verbatim>\<open>send\<close>
  that returned normally came before it.
\<close>

theorem write_loop_exit_drops_payloads:
  "(closing s \<and> writer s \<noteq> WriterDone \<longrightarrow> writer_turn s = write_loop_finally s)
   \<and> (\<forall>f. Future f \<in> set (queue_items (send_queue s)) \<and> futures s f = Pending \<longrightarrow>
          futures (write_loop_finally s) f = Failed ConnectionError)
   \<and> (\<forall>f. \<not> (Future f \<in> set (queue_items (send_queue s)) \<and> futures s f = Pending) \<longrightarrow>
          futures (write_loop_finally s) f = futures s f)
   \<and> queue_items (send_queue (write_loop_finally s)) = []
   \<and> queue_closed (send_queue (write_loop_finally s))
   \<and> wire (write_loop_finally s) = wire s
   \<and> write_loop_finally
        (s\<lparr>send_queue := (send_queue s)\<lparr>queue_items :=
              filter (\<lambda>x. \<forall>d. x \<noteq> Data d) (queue_items (send_queue s))\<rparr>\<rparr>)
       = write_loop_finally s
   \<and> (\<forall>data s1. send s data = Inr s1 \<longrightarrow> write_loop_finally s1 = write_loop_finally s)"
proof -
  have A: "closing s \<and> writer s \<noteq> WriterDone \<longrightarrow> writer_turn s = write_loop_finally s"
    by (simp add: writer_turn_def)
  have B: "futures (write_loop_finally s) f
        = (if Future f \<in> set (queue_items (send_queue s)) \<and> futures s f = Pending
           then Failed ConnectionError else futures s f)" for f
    by (simp add: write_loop_finally_futures fail_pending_char)
  have C: "write_loop_finally
        (s\<lparr>send_queue := (send_queue s)\<lparr>queue_items :=
              filter (\<lambda>x. \<forall>d. x \<noteq> Data d) (queue_items (send_queue s))\<rparr>\<rparr>)
       = write_loop_finally s"
    by (rule write_loop_finally_queue_irrelevant) (rule fail_pending_filter)
  have D: "write_loop_finally s1 = write_loop_finally s" if "send s data = Inr s1" for data s1
  proof -
    have "s1 = s\<lparr>send_queue := (send_queue s)\<lparr>queue_items := queue_items (send_queue s) @ [Data data]\<rparr>\<rparr>"
      using that by (auto simp: send_def put_nowait_def split: if_splits)
    then show ?thesis
      using write_loop_finally_queue_irrelevant[OF fail_pending_append_Data] by simp
  qed
  show ?thesis
    using A B C D by (simp add: write_loop_finally_fields)
qed

theorem write_loop_exit_drops_payloads_witness:
  "closing closing_conn \<and> writer closing_conn \<noteq> WriterDone
   \<and> queue_items (send_queue closing_conn) = [Data [1], Future 7, Data [2]]
   \<and> futures closing_conn 7 = Pending
   \<and> futures (writer_turn closing_conn) 7 = Failed ConnectionError
   \<and> futures (writer_turn closing_conn) 8 = Pending
   \<and> queue_items (send_queue (writer_turn closing_conn)) = []
   \<and> wire (writer_turn closing_conn) = []
   \<and> writer_turn closing_conn
       = writer_turn (closing_conn\<lparr>send_queue := (send_queue closing_conn)\<lparr>queue_items := [Future 7]\<rparr>\<rparr>)"
proof -
  have f: "closing closing_conn" "writer closing_conn \<noteq> WriterDone"
    "queue_items (send_queue closing_conn) = [Data [1], Future 7, Data [2]]"
    "futures closing_conn 7 = Pending" "futures closing_conn 8 = Pending"
    "wire closing_conn = []"
    by (simp_all add: closing_conn_def close_def client_conn_def new_connection_def fresh_tcp_def)
  note th = write_loop_exit_drops_payloads[of closing_conn]
  have wt: "writer_turn closing_conn = write_loop_finally closing_conn"
    using th f(1,2) by blast
  have 1: "futures (write_loop_finally closing_conn) 7 = Failed ConnectionError"
    using th f(3,4) by simp
  have 2: "futures (write_loop_finally closing_conn) 8 = Pending"
    using th f(3,5) by simp
  have 3: "queue_items (send_queue (write_loop_finally closing_conn)) = []"
    "wire (write_loop_finally closing_conn) = []"
    using th f(6) by simp_all
  have 4: "write_loop_finally
        (closing_conn\<lparr>send_queue := (send_queue closing_conn)\<lparr>queue_items := [Future 7]\<rparr>\<rparr>)
       = write_loop_finally closing_conn"
    using th by (simp add: f(3))
  have 5: "writer_turn (closing_conn\<lparr>send_queue := (send_queue closing_conn)\<lparr>queue_items := [Future 7]\<rparr>\<rparr>)
      = write_loop_finally
        (closing_conn\<lparr>send_queue := (send_queue closing_conn)\<lparr>queue_items := [Future 7]\<rparr>\<rparr>)"
    using f(1,2) by (simp add: writer_turn_def)
  show ?thesis using f wt 1 2 3 4 5 by simp
qed

subsection \<open>Claim on the payloads of the writer\<close>

lemma update_absent: "k \<notin> fst ` set al \<Longrightarrow> AList.update k v al = al @ [(k, v)]"
  by (induction al) auto

lemma sent_conn_0: "sent_conn 0 = wide_conn"
  by (simp add: sent_conn_def wide_conn_def new_connection_def fresh_tcp_def)

lemma sent_conn_step:
  assumes "n < 32768"
  shows "run_acts (sent_conn n) [UserSend [0], WriterTurn] = sent_conn (Suc n)"
proof -
  have k: "int n \<notin> fst ` set (map (\<lambda>i. (int i, i)) [0..<n])" by (auto simp: image_iff)
  have m: "int n mod 32768 = int n" using assms by simp
  have u: "AList.update (int n) n (map (\<lambda>i. (int i, i)) [0..<n])
         = map (\<lambda>i. (int i, i)) [0..<n] @ [(int n, n)]"
    by (rule update_absent[OF k])
  have k': "int n \<notin> (\<lambda>x. int x) ` {0..<n}" by auto
  show ?thesis
    using assms k'
    by (simp add: sent_conn_def wide_conn_def new_connection_def fresh_tcp_def send_def
        put_nowait_def writer_turn_def write_step_def queue_get_def wait_window_def
        emit_data_def write_apdu_def stop_supervisory_timeout_def call_later_def Let_def m u
        image_image add.commute)
qed

lemma sent_conn_reachable:
  "n \<le> 32768 \<Longrightarrow>
   run_acts wide_conn (concat (replicate n [UserSend [0], WriterTurn])) = sent_conn n"
proof (induction n)
  case 0
  then show ?case by (simp add: sent_conn_0)
next
  case (Suc n)
  have app: "run_acts s (xs @ ys) = run_acts (run_acts s xs) ys" for s xs ys
    by (induction s xs rule: run_acts.induct) simp_all
  have "replicate (Suc n) [UserSend [0], WriterTurn]
      = replicate n [UserSend [0], WriterTurn] @ [[UserSend [0], WriterTurn]]"
    by (simp add: replicate_append_same)
  then have c: "concat (replicate (Suc n) [UserSend [0], WriterTurn])
      = concat (replicate n [UserSend [0], WriterTurn]) @ [UserSend [0], WriterTurn]"
    by (simp only: concat_append) simp
  have "run_acts wide_conn (concat (replicate (Suc n) [UserSend [0], WriterTurn]))
      = run_acts (run_acts wide_conn (concat (replicate n [UserSend [0], WriterTurn])))
          [UserSend [0], WriterTurn]"
    by (simp only: c app)
  also have "\<dots> = run_acts (sent_conn n) [UserSend [0], WriterTurn]"
    using Suc by simp
  also have "\<dots> = sent_conn (Suc n)"
    using Suc.prems by (intro sent_conn_step) simp
  finally show ?case .
qed

lemma sent_conn_fields:
  "ssn (sent_conn n) = int n mod 0x8000"
  "waiting_ack_handles (sent_conn n) = map (\<lambda>i. (int i, i)) [0..<n]"
  "send_window_size (sent_conn n) = 40000" "is_enabled (sent_conn n)"
  "writer (sent_conn n) = AwaitItem" "\<not> closing (sent_conn n)"
  "send_queue (sent_conn n) = \<lparr>queue_items = [], queue_closed = False\<rparr>"
  "wire (sent_conn n) = map (\<lambda>i. APDUI (int i) 0 [0]) [0..<n]"
  by (simp_all add: sent_conn_def wide_conn_def new_connection_def fresh_tcp_def)

lemma reuse_conn_dequeued:
  "reuse_conn\<lparr>send_queue := (send_queue reuse_conn)\<lparr>queue_items := []\<rparr>\<rparr> = sent_conn 32768"
  by (simp add: reuse_conn_def sent_conn_def wide_conn_def new_connection_def fresh_tcp_def)

text \<open>
  C3, as the claim words it, fails where the current \<open>ssn\<close> is still a key of
  \<open>waiting_ack\<close>: a client with a send window of 40000 that sent \<open>2^15\<close> payloads without
  an acknowledgement dequeues the next payload while it is enabled and its window is
  open, and raises instead of writing an I-frame.
\<close>

theorem writer_payload_counterexample:
  "writer reuse_conn = AwaitItem
   \<and> queue_items (send_queue reuse_conn) = [Data [0]]
   \<and> int (length (waiting_ack_handles reuse_conn)) < send_window_size reuse_conn
   \<and> is_enabled reuse_conn
   \<and> write_step reuse_conn
       = Inl (Exception ''can not reuse already registered ssn'', sent_conn 32768)
   \<and> wire (sent_conn 32768) = wire reuse_conn
   \<and> wire (writer_turn reuse_conn) = wire reuse_conn
   \<and> run_acts wide_conn (concat (replicate 32768 [UserSend [0], WriterTurn]) @ [UserSend [0]])
       = reuse_conn"
proof -
  have f: "writer reuse_conn = AwaitItem" "queue_items (send_queue reuse_conn) = [Data [0]]"
    "waiting_ack_handles reuse_conn = map (\<lambda>i. (int i, i)) [0..<32768]"
    "send_window_size reuse_conn = 40000" "is_enabled reuse_conn" "ssn reuse_conn = 0"
    "\<not> closing reuse_conn" "wire reuse_conn = wire (sent_conn 32768)"
    by (simp_all add: reuse_conn_def sent_conn_fields)
  have m: "(0::int) \<in> (\<lambda>i. int i) ` {0..<32768}"
    by (rule image_eqI[of _ _ 0]) simp_all
  have ws: "write_step reuse_conn
       = Inl (Exception ''can not reuse already registered ssn'', sent_conn 32768)"
    using f(1,2,3,6) m
    by (simp add: write_step_def queue_get_def Let_def image_image reuse_conn_dequeued)
  have wt: "wire (writer_turn reuse_conn) = wire reuse_conn"
    using f(1,7,8) by (simp add: writer_turn_def ws write_loop_finally_fields)
  have app: "run_acts s (xs @ ys) = run_acts (run_acts s xs) ys" for s xs ys
    by (induction s xs rule: run_acts.induct) simp_all
  have "send (sent_conn 32768) [0] = Inr reuse_conn"
    by (simp add: send_def put_nowait_def sent_conn_fields reuse_conn_def)
  then have r: "run_acts wide_conn (concat (replicate 32768 [UserSend [0], WriterTurn]) @ [UserSend [0]])
       = reuse_conn"
    using sent_conn_reachable[of 32768] by (simp add: app)
  show ?thesis
    using f(1,2,5,8) ws wt r by (simp add: f(3,4))
qed

lemma wait_window_emits:
  assumes "int (length (waiting_ack_handles u)) < send_window_size u" "is_enabled u"
  shows "wire (wait_window u asdu) = wire u @ [APDUI (ssn u) (rsn u) asdu]"
    "w (wait_window u asdu) = 0"
    "supervisory_handle (wait_window u asdu) = None"
    "timers (wait_window u asdu)
       = (case supervisory_handle u of
            None \<Rightarrow> timers u
          | Some h \<Rightarrow> filter (\<lambda>t. timer_handle t \<noteq> h) (timers u)) @ [response_timer u]"
    "waiting_ack_handles (wait_window u asdu)
       = AList.update (ssn u) (next_handle u) (waiting_ack_handles u)"
    "ssn (wait_window u asdu) = (ssn u + 1) mod 0x8000"
    "writer (wait_window u asdu) = AwaitItem"
    "closing (fire (response_timer u) (wait_window u asdu))"
  using assms
  by (simp_all add: wait_window_def emit_data_def write_apdu_def stop_supervisory_timeout_def
      call_later_def cancel_def response_timer_def fire_def on_response_timeout_def close_def
      Let_def split: option.splits)

text \<open>
  C3, amended.  A payload the writer dequeues while the current \<open>ssn\<close> is a key of
  \<open>waiting_ack\<close> raises the reuse exception before any wait.  Otherwise the writer waits
  until \<open>|waiting_ack| < send_window_size\<close>: with the window full it stays suspended
  holding the payload, at the dequeue and at every later turn.  Once the window is open,
  a disabled connection drops the payload and changes nothing else; an enabled one writes
  \<open>I(ssn, rsn, payload)\<close>, resets \<open>w\<close>, cancels the supervisory timer, arms a response
  timer with delay \<open>response_timeout\<close> whose expiry closes the connection, registers its
  handle under \<open>ssn\<close> and advances \<open>ssn\<close> by one modulo \<open>2^15\<close>.
\<close>

theorem writer_payload_steps:
  assumes "writer s = AwaitItem" "queue_items (send_queue s) = Data asdu # rest"
  shows "(ssn s \<in> fst ` set (waiting_ack_handles s) \<longrightarrow>
           write_step s = Inl (Exception ''can not reuse already registered ssn'',
                               s\<lparr>send_queue := (send_queue s)\<lparr>queue_items := rest\<rparr>\<rparr>))
   \<and> (ssn s \<notin> fst ` set (waiting_ack_handles s) \<longrightarrow>
           write_step s
             = Inr (wait_window (s\<lparr>send_queue := (send_queue s)\<lparr>queue_items := rest\<rparr>\<rparr>) asdu))
   \<and> (\<forall>t. writer t = AwaitWindow asdu \<longrightarrow> write_step t = Inr (wait_window t asdu))
   \<and> (\<forall>u. (\<not> int (length (waiting_ack_handles u)) < send_window_size u \<longrightarrow>
              wait_window u asdu = u\<lparr>writer := AwaitWindow asdu\<rparr>)
          \<and> (int (length (waiting_ack_handles u)) < send_window_size u \<and> \<not> is_enabled u \<longrightarrow>
              wait_window u asdu = u\<lparr>writer := AwaitItem\<rparr>)
          \<and> (int (length (waiting_ack_handles u)) < send_window_size u \<and> is_enabled u \<longrightarrow>
              wire (wait_window u asdu) = wire u @ [APDUI (ssn u) (rsn u) asdu]
            \<and> w (wait_window u asdu) = 0
            \<and> supervisory_handle (wait_window u asdu) = None
            \<and> timers (wait_window u asdu)
                = (case supervisory_handle u of
                     None \<Rightarrow> timers u
                   | Some h \<Rightarrow> filter (\<lambda>t. timer_handle t \<noteq> h) (timers u))
                  @ [response_timer u]
            \<and> waiting_ack_handles (wait_window u asdu)
                = AList.update (ssn u) (next_handle u) (waiting_ack_handles u)
            \<and> map_of (waiting_ack_handles (wait_window u asdu)) (ssn u) = Some (next_handle u)
            \<and> timer_handle (response_timer u) = next_handle u
            \<and> timer_delay (response_timer u) = response_timeout u
            \<and> closing (fire (response_timer u) (wait_window u asdu))
            \<and> ssn (wait_window u asdu) = (ssn u + 1) mod 0x8000
            \<and> writer (wait_window u asdu) = AwaitItem))"
proof -
  have A: "ssn s \<in> fst ` set (waiting_ack_handles s) \<longrightarrow>
           write_step s = Inl (Exception ''can not reuse already registered ssn'',
                               s\<lparr>send_queue := (send_queue s)\<lparr>queue_items := rest\<rparr>\<rparr>)"
    using assms by (simp add: write_step_def queue_get_def Let_def)
  have B: "ssn s \<notin> fst ` set (waiting_ack_handles s) \<longrightarrow>
           write_step s
             = Inr (wait_window (s\<lparr>send_queue := (send_queue s)\<lparr>queue_items := rest\<rparr>\<rparr>) asdu)"
    using assms by (simp add: write_step_def queue_get_def Let_def)
  have C: "writer t = AwaitWindow asdu \<longrightarrow> write_step t = Inr (wait_window t asdu)" for t
    by (simp add: write_step_def)
  have D: "\<not> int (length (waiting_ack_handles u)) < send_window_size u \<longrightarrow>
              wait_window u asdu = u\<lparr>writer := AwaitWindow asdu\<rparr>" for u
    by (simp add: wait_window_def)
  have E: "int (length (waiting_ack_handles u)) < send_window_size u \<and> \<not> is_enabled u \<longrightarrow>
              wait_window u asdu = u\<lparr>writer := AwaitItem\<rparr>" for u
    by (simp add: wait_window_def emit_data_def)
  have F: "wire (wait_window u asdu) = wire u @ [APDUI (ssn u) (rsn u) asdu]
            \<and> w (wait_window u asdu) = 0
            \<and> supervisory_handle (wait_window u asdu) = None
            \<and> timers (wait_window u asdu)
                = (case supervisory_handle u of
                     None \<Rightarrow> timers u
                   | Some h \<Rightarrow> filter (\<lambda>t. timer_handle t \<noteq> h) (timers u))
                  @ [response_timer u]
            \<and> waiting_ack_handles (wait_window u asdu)
                = AList.update (ssn u) (next_handle u) (waiting_ack_handles u)
            \<and> map_of (waiting_ack_handles (wait_window u asdu)) (ssn u) = Some (next_handle u)
            \<and> timer_handle (response_timer u) = next_handle u
            \<and> timer_delay (response_timer u) = response_timeout u
            \<and> closing (fire (response_timer u) (wait_window u asdu))
            \<and> ssn (wait_window u asdu) = (ssn u + 1) mod 0x8000
            \<and> writer (wait_window u asdu) = AwaitItem"
    if "int (length (waiting_ack_handles u)) < send_window_size u" "is_enabled u" for u
    using wait_window_emits[OF that, of asdu]
    by (simp add: update_conv' response_timer_def)
  show ?thesis using A B C D E F by blast
qed

theorem writer_payload_steps_witness:
  "writer queued_conn = AwaitItem
   \<and> queue_items (send_queue queued_conn) = [Data [1]]
   \<and> ssn queued_conn \<notin> fst ` set (waiting_ack_handles queued_conn)
   \<and> int (length (waiting_ack_handles client_conn)) < send_window_size client_conn
   \<and> is_enabled client_conn
   \<and> (\<exists>s'. write_step queued_conn = Inr s'
          \<and> wire s' = [APDUI 0 0 [1]] \<and> w s' = 0 \<and> ssn s' = 1
          \<and> waiting_ack_handles s' = [(0, 0)]
          \<and> timers s' = [\<lparr>timer_handle = 0, timer_delay = 15,
                           timer_callback = on_response_timeout_cb\<rparr>]
          \<and> closing (fire \<lparr>timer_handle = 0, timer_delay = 15,
                           timer_callback = on_response_timeout_cb\<rparr> s')
          \<and> \<not> closing s')"
proof -
  have q: "writer queued_conn = AwaitItem" "queue_items (send_queue queued_conn) = [Data [1]]"
    "ssn queued_conn \<notin> fst ` set (waiting_ack_handles queued_conn)"
    "queued_conn\<lparr>send_queue := (send_queue queued_conn)\<lparr>queue_items := []\<rparr>\<rparr> = client_conn"
    by (simp_all add: queued_conn_def client_conn_def new_connection_def fresh_tcp_def)
  have c: "int (length (waiting_ack_handles client_conn)) < send_window_size client_conn"
    "is_enabled client_conn" "wire client_conn = []" "ssn client_conn = 0" "rsn client_conn = 0"
    "supervisory_handle client_conn = None" "timers client_conn = []"
    "waiting_ack_handles client_conn = []" "next_handle client_conn = 0"
    "response_timeout client_conn = 15"
    by (simp_all add: client_conn_def new_connection_def fresh_tcp_def)
  note th = writer_payload_steps[OF q(1,2)]
  have ws: "write_step queued_conn = Inr (wait_window client_conn [1])"
    using th q(3) by (simp add: q(4))
  have nc: "\<not> closing (wait_window client_conn [1])"
    using c(1,2)
    by (simp add: wait_window_def emit_data_def write_apdu_def stop_supervisory_timeout_def
        call_later_def Let_def c client_conn_def new_connection_def fresh_tcp_def)
  have U: "wire (wait_window client_conn [1])
             = wire client_conn @ [APDUI (ssn client_conn) (rsn client_conn) [1]]
      \<and> w (wait_window client_conn [1]) = 0
      \<and> timers (wait_window client_conn [1])
          = (case supervisory_handle client_conn of
               None \<Rightarrow> timers client_conn
             | Some h \<Rightarrow> filter (\<lambda>t. timer_handle t \<noteq> h) (timers client_conn))
            @ [response_timer client_conn]
      \<and> waiting_ack_handles (wait_window client_conn [1])
          = AList.update (ssn client_conn) (next_handle client_conn)
              (waiting_ack_handles client_conn)
      \<and> closing (fire (response_timer client_conn) (wait_window client_conn [1]))
      \<and> ssn (wait_window client_conn [1]) = (ssn client_conn + 1) mod 0x8000"
    using th c(1,2) by blast
  have rt: "response_timer client_conn
      = \<lparr>timer_handle = 0, timer_delay = 15, timer_callback = on_response_timeout_cb\<rparr>"
    by (simp add: response_timer_def c)
  have p: "wire (wait_window client_conn [1]) = [APDUI 0 0 [1]]"
    "w (wait_window client_conn [1]) = 0" "ssn (wait_window client_conn [1]) = 1"
    "waiting_ack_handles (wait_window client_conn [1]) = [(0, 0)]"
    "timers (wait_window client_conn [1]) = [\<lparr>timer_handle = 0, timer_delay = 15,
                           timer_callback = on_response_timeout_cb\<rparr>]"
    "closing (fire \<lparr>timer_handle = 0, timer_delay = 15,
                           timer_callback = on_response_timeout_cb\<rparr> (wait_window client_conn [1]))"
    using U unfolding rt by (simp_all add: c)
  show ?thesis using q(1,2,3) c(1,2) ws p nc by simp
qed

subsection \<open>Claim on the window invariant\<close>

lemma ack_popped_inv:
  assumes "window_inv s"
  shows "window_inv (ack_popped s ns)"
proof -
  have "int (length (filter (\<lambda>p. fst p \<notin> set ns) (waiting_ack_handles s)))
      \<le> int (length (waiting_ack_handles s))"
    by simp
  then have "int (length (filter (\<lambda>p. fst p \<notin> set ns) (waiting_ack_handles s)))
      \<le> send_window_size s"
    using assms unfolding window_inv_def by linarith
  then show ?thesis
    using assms unfolding window_inv_def ack_popped_def
    by (simp add: distinct_map_filter)
qed

lemma set_ack_inv:
  assumes "window_inv s"
  shows "window_inv (case set_ack s r of Inl (e, s') \<Rightarrow> s' | Inr s' \<Rightarrow> s')"
proof (cases "\<forall>n\<in>set (ack_ssns (ack s) r). n \<in> fst ` set (waiting_ack_handles s)")
  case True
  have "window_inv (ack_popped s (ack_ssns (ack s) r))" by (rule ack_popped_inv[OF assms])
  then show ?thesis using True
    by (simp add: set_ack_char notify_all_def window_inv_def)
next
  case False
  then have "set_ack s r = Inl (Exception ''received ack for unsent sequence number'',
                ack_popped s (takeWhile (\<lambda>n. n \<in> fst ` set (waiting_ack_handles s))
                                (ack_ssns (ack s) r)))"
    by (simp only: set_ack_char if_False)
  then show ?thesis by (simp add: ack_popped_inv[OF assms])
qed

lemma set_ack_inv_Inr: "window_inv s \<Longrightarrow> set_ack s r = Inr s' \<Longrightarrow> window_inv s'"
  using set_ack_inv[of s r] by simp

lemma set_ack_rws:
  "receive_window_size (case set_ack s r of Inl (e, s') \<Rightarrow> s' | Inr s' \<Rightarrow> s')
     = receive_window_size s"
  by (simp add: set_ack_char notify_all_def ack_popped_def)

lemma process_apduu_inv:
  assumes "window_inv s" "0 < receive_window_size s"
  shows "window_inv (process_apduu s f)" "receive_window_size (process_apduu s f) = receive_window_size s"
  using assms
  by (auto simp: process_apduu_def window_inv_def write_apdu_def stop_supervisory_timeout_def
      cancel_def split: option.splits)

lemma process_apdui_inv:
  assumes "window_inv s" "0 < receive_window_size s"
  shows "window_inv (case process_apdui s n_s n_r data of Inl (e, s') \<Rightarrow> s' | Inr s' \<Rightarrow> s')
       \<and> receive_window_size (case process_apdui s n_s n_r data of Inl (e, s') \<Rightarrow> s' | Inr s' \<Rightarrow> s')
           = receive_window_size s"
proof (cases "set_ack s n_r")
  case (Inl p)
  then show ?thesis
    using set_ack_inv[OF assms(1), of n_r] set_ack_rws[of s n_r]
    by (auto simp: process_apdui_def split: prod.splits)
next
  case (Inr s1)
  have i1: "window_inv s1" by (rule set_ack_inv_Inr[OF assms(1) Inr])
  have r1: "receive_window_size s1 = receive_window_size s"
    using set_ack_rws[of s n_r] Inr by simp
  show ?thesis
    using i1 r1 assms(2) Inr
    by (auto simp: process_apdui_def window_inv_def Let_def receive_put_def put_nowait_def
        start_supervisory_timeout_def stop_supervisory_timeout_def call_later_def cancel_def
        write_apdu_def split: option.splits if_splits)
qed


lemma write_step_inv:
  assumes "window_inv s" "0 < receive_window_size s"
  shows "window_inv (case write_step s of Inl (e, s') \<Rightarrow> s' | Inr s' \<Rightarrow> s')
       \<and> receive_window_size (case write_step s of Inl (e, s') \<Rightarrow> s' | Inr s' \<Rightarrow> s')
           = receive_window_size s"
proof -
  have u: "int (length (AList.update k v al)) \<le> int (length al) + 1" for k :: int and v :: nat and al
    by (induction al) auto
  have ww: "window_inv (wait_window t asdu)
          \<and> receive_window_size (wait_window t asdu) = receive_window_size t"
    if "window_inv t" "0 < receive_window_size t" for t asdu
    using that u[of "ssn t" "next_handle t" "waiting_ack_handles t"]
    by (auto simp: wait_window_def emit_data_def window_inv_def write_apdu_def
        stop_supervisory_timeout_def call_later_def cancel_def Let_def distinct_update
        split: option.splits)
  show ?thesis
  proof (cases "writer s")
    case AwaitItem
    show ?thesis
    proof (cases "queue_items (send_queue s)")
      case Nil
      then show ?thesis using AwaitItem assms by (simp add: write_step_def queue_get_def)
    next
      case (Cons item rest)
      let ?s1 = "s\<lparr>send_queue := (send_queue s)\<lparr>queue_items := rest\<rparr>\<rparr>"
      have i1: "window_inv ?s1" "0 < receive_window_size ?s1"
        using assms by (simp_all add: window_inv_def)
      show ?thesis
      proof (cases item)
        case (Data asdu)
        then show ?thesis
          using AwaitItem Cons i1 ww[OF i1, of asdu]
          by (simp add: write_step_def queue_get_def Let_def)
      next
        case (Future f)
        then show ?thesis
          using AwaitItem Cons i1
          by (simp add: write_step_def queue_get_def Let_def window_inv_def)
      qed
    qed
  next
    case (AwaitWindow asdu)
    then show ?thesis using ww[OF assms, of asdu] by (simp add: write_step_def)
  next
    case WriterDone
    then show ?thesis using assms by (simp add: write_step_def)
  qed
qed

lemma write_loop_finally_inv:
  assumes "window_inv s"
  shows "window_inv (write_loop_finally s)"
  using assms by (simp add: window_inv_def write_loop_finally_fields)

lemma writer_turn_inv:
  assumes "window_inv s" "0 < receive_window_size s"
  shows "window_inv (writer_turn s)" "receive_window_size (writer_turn s) = receive_window_size s"
proof -
  let ?t = "case write_step s of Inl (e, s') \<Rightarrow> s' | Inr s' \<Rightarrow> s'"
  have t: "window_inv ?t" "receive_window_size ?t = receive_window_size s"
    using write_step_inv[OF assms] by simp_all
  show "window_inv (writer_turn s)"
    using assms(1) t(1) write_loop_finally_inv[of ?t] write_loop_finally_inv[of s]
    by (auto simp: writer_turn_def split: sum.splits)
  show "receive_window_size (writer_turn s) = receive_window_size s"
    using t(2) by (auto simp: writer_turn_def write_loop_finally_fields split: sum.splits)
qed

lemma read_loop_finally_inv:
  "window_inv (read_loop_finally s) = window_inv s"
  "receive_window_size (read_loop_finally s) = receive_window_size s"
  by (simp_all add: read_loop_finally_def close_def window_inv_def Let_def)

lemma reader_turn_inv:
  assumes "window_inv s" "0 < receive_window_size s"
  shows "window_inv (reader_turn s i) \<and> receive_window_size (reader_turn s i) = receive_window_size s"
proof (cases i)
  case (ReadError e)
  then show ?thesis using assms by (simp add: reader_turn_def read_loop_finally_inv)
next
  case (Frame apdu)
  show ?thesis
  proof (cases apdu)
    case (APDUI n_s n_r data)
    then show ?thesis
      using Frame assms process_apdui_inv[OF assms, of n_s n_r data]
      by (auto simp: reader_turn_def process_apdu_def read_loop_finally_inv split: sum.splits)
  next
    case (APDUS r)
    then show ?thesis
      using Frame assms set_ack_inv[OF assms(1), of r] set_ack_rws[of s r]
      by (auto simp: reader_turn_def process_apdu_def process_apdus_def read_loop_finally_inv
          split: sum.splits)
  next
    case (APDUU f)
    then show ?thesis
      using Frame assms process_apduu_inv[OF assms, of f]
      by (simp add: reader_turn_def process_apdu_def read_loop_finally_inv)
  qed
qed

lemma fire_inv:
  assumes "window_inv s" "0 < receive_window_size s"
  shows "window_inv (fire t s) \<and> receive_window_size (fire t s) = receive_window_size s"
  using assms
  by (simp add: fire_def cancel_def on_response_timeout_def on_supervisory_timeout_def close_def
      write_apdu_def window_inv_def Let_def split: callback.splits)

lemma apply_event_inv:
  assumes "window_inv s" "0 < receive_window_size s"
  shows "window_inv (apply_event s ev) \<and> receive_window_size (apply_event s ev) = receive_window_size s"
proof (cases ev)
  case (Inbound i)
  then show ?thesis using reader_turn_inv[OF assms, of i] by (simp add: apply_event_def)
next
  case (AckAdvance r)
  then show ?thesis
    using set_ack_inv[OF assms(1), of r] set_ack_rws[of s r] by (simp add: apply_event_def)
next
  case WriterTurns
  then show ?thesis using writer_turn_inv[OF assms] by (simp add: apply_event_def)
next
  case (TimerExpires h)
  then show ?thesis
    using assms fire_inv[OF assms] by (simp add: apply_event_def split: option.splits)
next
  case (Send data)
  then show ?thesis
    using assms by (simp add: apply_event_def send_def put_nowait_def window_inv_def)
next
  case (Drain f)
  then show ?thesis
    using assms by (simp add: apply_event_def drain_put_def put_nowait_def window_inv_def Let_def)
next
  case Receive
  then show ?thesis
    using assms
    by (simp add: apply_event_def receive_def queue_get_def window_inv_def split: list.splits)
next
  case Close
  then show ?thesis using assms by (simp add: apply_event_def close_def window_inv_def)
next
  case TestProbe
  then show ?thesis
    using assms by (simp add: apply_event_def test_probe_def write_apdu_def window_inv_def)
next
  case TestTimeout
  then show ?thesis
    using assms by (simp add: apply_event_def test_loop_finally_def close_def window_inv_def)
qed

lemma run_inv:
  "window_inv s \<Longrightarrow> 0 < receive_window_size s \<Longrightarrow>
   window_inv (run s evs) \<and> receive_window_size (run s evs) = receive_window_size s"
  unfolding run_def
proof (induction evs arbitrary: s)
  case Nil
  then show ?case by simp
next
  case (Cons ev evs)
  then show ?case using apply_event_inv[of s ev] by simp
qed

text \<open>
  C4.  In every connection constructed with positive window sizes, after every schedule
  of reader, ack-advance, writer, tester, timer and user events, the number of entries of
  \<open>waiting_ack\<close> is at most \<open>send_window_size\<close> and \<open>w\<close> is below
  \<open>receive_window_size\<close>; the keys of \<open>waiting_ack\<close> stay distinct, so the number of
  entries is the size of the dictionary.
\<close>

theorem window_invariant:
  assumes "0 < k" "0 < w_max"
  shows "int (length (waiting_ack_handles (run (new_connection conn always_en t1 t2 t3 k w_max) evs)))
           \<le> send_window_size (run (new_connection conn always_en t1 t2 t3 k w_max) evs)
       \<and> w (run (new_connection conn always_en t1 t2 t3 k w_max) evs)
           < receive_window_size (run (new_connection conn always_en t1 t2 t3 k w_max) evs)
       \<and> distinct (map fst (waiting_ack_handles (run (new_connection conn always_en t1 t2 t3 k w_max) evs)))"
proof -
  let ?s = "new_connection conn always_en t1 t2 t3 k w_max"
  have "window_inv ?s" "0 < receive_window_size ?s"
    using assms by (simp_all add: window_inv_def new_connection_def)
  then have "window_inv (run ?s evs)" using run_inv by blast
  then show ?thesis by (simp add: window_inv_def)
qed

lemma busy_waiting:
  "waiting_ack_handles (run (new_connection fresh_tcp False 15 10 20 2 2) (take 7 busy_events))
     = [(0, 0), (1, 1)]"
  by code_simp

lemma busy_writer:
  "writer (run (new_connection fresh_tcp False 15 10 20 2 2) (take 7 busy_events))
     = AwaitWindow [3]"
  by code_simp

lemma busy_wire:
  "wire (run (new_connection fresh_tcp False 15 10 20 2 2) busy_events)
     = [APDUU STARTDT_CON, APDUI 0 0 [1], APDUI 1 0 [2], APDUS 2, APDUI 2 2 [3]]"
  by code_simp

theorem window_invariant_witness:
  "(0::int) < 2
   \<and> int (length (waiting_ack_handles
          (run (new_connection fresh_tcp False 15 10 20 2 2) (take 7 busy_events))))
       \<le> send_window_size (run (new_connection fresh_tcp False 15 10 20 2 2) (take 7 busy_events))
   \<and> w (run (new_connection fresh_tcp False 15 10 20 2 2) (take 7 busy_events))
       < receive_window_size (run (new_connection fresh_tcp False 15 10 20 2 2) (take 7 busy_events))
   \<and> waiting_ack_handles (run (new_connection fresh_tcp False 15 10 20 2 2) (take 7 busy_events))
       = [(0, 0), (1, 1)]
   \<and> writer (run (new_connection fresh_tcp False 15 10 20 2 2) (take 7 busy_events))
       = AwaitWindow [3]
   \<and> wire (run (new_connection fresh_tcp False 15 10 20 2 2) busy_events)
       = [APDUU STARTDT_CON, APDUI 0 0 [1], APDUI 1 0 [2], APDUS 2, APDUI 2 2 [3]]"
proof -
  have p: "(0::int) < 2" by simp
  note th = window_invariant[OF p p, of fresh_tcp False 15 10 20 "take 7 busy_events"]
  show ?thesis
    using th busy_waiting busy_writer busy_wire by (simp only: p simp_thms)
qed

end
